theory Spec2Isabelle
  imports Main "HOL-Library.Sublist"
begin

section \<open>Documents\<close>

text \<open>
  The scripts \<^verbatim>\<open>aggressive_simplify.py\<close> and \<^verbatim>\<open>simplify_files.py\<close> read a file into a
  Python \<^verbatim>\<open>str\<close>, transform it and write it back.  A Python \<^verbatim>\<open>str\<close> is a sequence of
  Unicode code points, so a character is modelled as its code point (a natural number)
  and a document as a list of code points.  Indexing, slicing and \<^verbatim>\<open>len\<close> then count what
  Python counts.  Reading and writing the file is left out: the functions below take the
  content that was read and return the content that is written.
\<close>

type_synonym pychar = nat
type_synonym pystr = "nat list"

definition str :: "string \<Rightarrow> pystr" where
  "str s = map of_char s"

definition NL :: pychar where
  "NL = 10"

definition LBRACE :: pychar where
  "LBRACE = 123"

definition RBRACE :: pychar where
  "RBRACE = 125"

text \<open>
  Whitespace as \<^verbatim>\<open>str.strip()\<close> and the regular-expression class \<^verbatim>\<open>\s\<close> (on a \<^verbatim>\<open>str\<close>
  pattern) see it: the code points for which \<^verbatim>\<open>str.isspace\<close> holds.
\<close>

definition isspace :: "pychar \<Rightarrow> bool" where
  "isspace c \<longleftrightarrow>
     (9 \<le> c \<and> c \<le> 13) \<or> (28 \<le> c \<and> c \<le> 32) \<or> c = 133 \<or> c = 160 \<or> c = 5760 \<or>
     (8192 \<le> c \<and> c \<le> 8202) \<or> c = 8232 \<or> c = 8233 \<or> c = 8239 \<or> c = 8287 \<or> c = 12288"

text \<open>\<^verbatim>\<open>s.strip()\<close>: leading and trailing whitespace removed.\<close>

definition strip :: "pystr \<Rightarrow> pystr" where
  "strip s = rev (dropWhile isspace (rev (dropWhile isspace s)))"

text \<open>\<^verbatim>\<open>s.startswith(p)\<close>.\<close>

definition startswith :: "pystr \<Rightarrow> pystr \<Rightarrow> bool" where
  "startswith s p \<longleftrightarrow> take (length p) s = p"

text \<open>
  \<^verbatim>\<open>re.search\<close> for a pattern that is a literal: the index of the leftmost occurrence
  of \<open>p\<close> in \<open>s\<close>, or \<open>None\<close>.
\<close>

fun search :: "pystr \<Rightarrow> pystr \<Rightarrow> nat option" where
  "search p [] = (if p = [] then Some 0 else None)"
| "search p (c # cs) =
     (if startswith (c # cs) p then Some 0 else map_option Suc (search p cs))"

text \<open>\<^verbatim>\<open>p in s\<close> for strings.\<close>

definition contains :: "pystr \<Rightarrow> pystr \<Rightarrow> bool" where
  "contains p s \<longleftrightarrow> search p s \<noteq> None"

text \<open>\<^verbatim>\<open>s.split('\n')\<close> and \<^verbatim>\<open>'\n'.join(ls)\<close>.\<close>

fun split_lines :: "pystr \<Rightarrow> pystr list" where
  "split_lines [] = [[]]"
| "split_lines (c # cs) =
     (if c = NL then [] # split_lines cs
      else (case split_lines cs of [] \<Rightarrow> [[c]] | l # ls \<Rightarrow> (c # l) # ls))"

fun join_lines :: "pystr list \<Rightarrow> pystr" where
  "join_lines [] = []"
| "join_lines [l] = l"
| "join_lines (l # ls) = l @ NL # join_lines ls"

section \<open>Block Scanner (\<^verbatim>\<open>aggressive_simplify\<close>, step 3)\<close>

definition entry_header :: pystr where
  "entry_header = str ''func main() {''"

text \<open>
  The \<^verbatim>\<open>while pos < len(content)\<close> loop.  \<open>scan cs pos bc\<close> runs it on the characters
  \<open>cs = content[pos:]\<close> with \<^verbatim>\<open>brace_count\<close> \<open>bc\<close>; it returns \<open>Some pos'\<close> when the
  loop breaks at a closing brace at position \<open>pos'\<close> (\<^verbatim>\<open>found_end\<close>), and \<open>None\<close>
  when the loop runs off the end of the content.
\<close>

fun scan :: "pystr \<Rightarrow> nat \<Rightarrow> int \<Rightarrow> nat option" where
  "scan [] pos bc = None"
| "scan (c # cs) pos bc =
     (if c = LBRACE then scan cs (pos + 1) (bc + 1)
      else if c = RBRACE then
        (if bc = 0 then Some pos else scan cs (pos + 1) (bc - 1))
      else scan cs (pos + 1) bc)"

definition block_scanner :: "pystr \<Rightarrow> pystr" where
  "block_scanner content =
     (case search entry_header content of
        None \<Rightarrow> content
      | Some start \<Rightarrow>
          (let pos = start + length entry_header in
           case scan (drop pos content) pos 0 of
             None \<Rightarrow> content
           | Some e \<Rightarrow> take (e + 1) content))"


section \<open>Noise Filter (\<^verbatim>\<open>aggressive_simplify\<close>, steps 1, 2, 4 and 5)\<close>

text \<open>
  Step 1, \<^verbatim>\<open>re.sub(r'^package main', 'package intermediate', content, flags=re.MULTILINE)\<close>.
  \<open>change_package bol cs\<close> rewrites the rest \<open>cs\<close> of the content; \<open>bol\<close> says that \<open>cs\<close>
  starts a line (the start of the content, or just after a newline), which is where
  \<^verbatim>\<open>^\<close> matches.  After a match the search goes on behind the matched text, which does
  not end in a newline.
\<close>

fun change_package :: "bool \<Rightarrow> pystr \<Rightarrow> pystr" where
  "change_package bol [] = []"
| "change_package bol (c # cs) =
     (if bol \<and> startswith (c # cs) (str ''package main'')
      then str ''package intermediate'' @ change_package False (drop 11 cs)
      else c # change_package (c = NL) cs)"

definition comment_open :: pystr where
  "comment_open = str ''/*''"

definition comment_close :: pystr where
  "comment_close = str ''*/''"

text \<open>
  The inner \<^verbatim>\<open>while\<close> loop of step 2, run on the lines after the opening line: the
  lines appended to \<^verbatim>\<open>comment_lines\<close>, and the lines left after the \<^verbatim>\<open>i += 1\<close> that
  follows the loop.
\<close>

fun consume :: "pystr list \<Rightarrow> pystr list \<times> pystr list" where
  "consume [] = ([], [])"
| "consume (l # ls) =
     (if contains comment_close l then ([l], ls)
      else (l # fst (consume ls), snd (consume ls)))"

text \<open>The character class \<^verbatim>\<open>[/=\s_-]\<close> and \<^verbatim>\<open>re.match(r'^[/=\s_-]{30,}', line)\<close>.\<close>

definition separator :: "pychar \<Rightarrow> bool" where
  "separator c \<longleftrightarrow> c = 47 \<or> c = 61 \<or> isspace c \<or> c = 95 \<or> c = 45"

definition decorative :: "pystr \<Rightarrow> bool" where
  "decorative line \<longleftrightarrow> 30 \<le> length (takeWhile separator line)"

text \<open>\<^verbatim>\<open>'Example' in line and 'func ' not in line\<close>.\<close>

definition verbose_example :: "pystr \<Rightarrow> bool" where
  "verbose_example line \<longleftrightarrow> contains (str ''Example'') line \<and> \<not> contains (str ''func '') line"

text \<open>
  The outer \<^verbatim>\<open>while i < len(lines)\<close> loop of step 2, run on the lines \<^verbatim>\<open>lines[i:]\<close>:
  the lines it appends to \<^verbatim>\<open>new_lines\<close>, in order.
\<close>

function noise_loop :: "pystr list \<Rightarrow> pystr list" where
  "noise_loop [] = []"
| "noise_loop (line # rest) =
     (if startswith (strip line) comment_open then
        (let comment_lines = line # fst (consume rest) in
         (if length comment_lines < 4 then comment_lines else []) @ noise_loop (snd (consume rest)))
      else if decorative line then noise_loop rest
      else if verbose_example line then noise_loop rest
      else line # noise_loop rest)"
  by pat_completeness auto
termination
proof (relation "measure length")
  have shorter: "length (snd (consume ls)) < Suc (length ls)" for ls
    by (induction ls) auto
  fix line rest comment_lines
  show "(snd (consume rest), line # rest) \<in> measure length"
    using shorter [of rest] by simp
qed auto

text \<open>
  Step 4, \<^verbatim>\<open>re.sub(r'\n{3,}', '\n\n', content)\<close>: a greedy match of three or more
  newlines is replaced by two, and the search goes on behind the match.
\<close>

function collapse_newlines :: "pystr \<Rightarrow> pystr" where
  "collapse_newlines [] = []"
| "collapse_newlines (c # cs) =
     (if 3 \<le> length (takeWhile (\<lambda>x. x = NL) (c # cs))
      then NL # NL # collapse_newlines (dropWhile (\<lambda>x. x = NL) cs)
      else c # collapse_newlines cs)"
  by pat_completeness auto
termination
  by (relation "measure length") (auto simp: length_dropWhile_le less_Suc_eq_le)

text \<open>
  Step 5, \<^verbatim>\<open>re.sub(r'[...]{2,}', '', content)\<close> on the eleven box-drawing characters
  U+2554, U+255A, U+2551, U+255D, U+2550, U+255E, U+2561, U+2564, U+256A, U+255F, U+2562.
\<close>

definition box :: "pychar \<Rightarrow> bool" where
  "box c \<longleftrightarrow> c \<in> {9556, 9562, 9553, 9565, 9552, 9566, 9569, 9572, 9578, 9567, 9570}"

function clean_decorative :: "pystr \<Rightarrow> pystr" where
  "clean_decorative [] = []"
| "clean_decorative (c # cs) =
     (if 2 \<le> length (takeWhile box (c # cs))
      then clean_decorative (dropWhile box cs)
      else c # clean_decorative cs)"
  by pat_completeness auto
termination
  by (relation "measure length") (auto simp: length_dropWhile_le less_Suc_eq_le)

text \<open>The whole of \<^verbatim>\<open>aggressive_simplify\<close>, from the content read to the content written.\<close>

definition aggressive_simplify :: "pystr \<Rightarrow> pystr" where
  "aggressive_simplify content =
     (let content = change_package True content;
          lines = split_lines content;
          new_lines = noise_loop lines;
          content = join_lines new_lines;
          content = block_scanner content;
          content = collapse_newlines content;
          content = clean_decorative content
      in content)"

section \<open>Section skip (\<^verbatim>\<open>simplify_go_file\<close>, steps 5 and 6)\<close>

definition banned_marker :: "pystr \<Rightarrow> bool" where
  "banned_marker line \<longleftrightarrow>
     contains (str ''KEY TAKEAWAYS'') line \<or> contains (str ''COMPREHENSIVE GUIDE'') line"

text \<open>
  The \<^verbatim>\<open>for\<close> loop of step 5, run on the remaining lines with the current value of
  \<^verbatim>\<open>skip_section\<close>: the lines appended to \<^verbatim>\<open>filtered_lines\<close>.
\<close>

fun skip_loop :: "bool \<Rightarrow> pystr list \<Rightarrow> pystr list" where
  "skip_loop skip_section [] = []"
| "skip_loop skip_section (line # rest) =
     (let skip_section =
            (if banned_marker line then True
             else if skip_section \<and> startswith (strip line) (str ''func '') then False
             else skip_section)
      in (if \<not> skip_section then [line] else []) @ skip_loop skip_section rest)"

text \<open>Steps 5 and 6 of \<^verbatim>\<open>simplify_go_file\<close> on the content.\<close>

definition section_skip :: "pystr \<Rightarrow> pystr" where
  "section_skip content = collapse_newlines (join_lines (skip_loop False (split_lines content)))"

section \<open>Notions used to state the properties\<close>

text \<open>
  Nesting depth after reading some characters, starting from depth \<open>d\<close>: an opening brace
  adds one, a closing brace seen at a depth above 0 takes one away.
\<close>

definition depth_step :: "int \<Rightarrow> pychar \<Rightarrow> int" where
  "depth_step d c = (if c = LBRACE then d + 1 else if c = RBRACE \<and> d > 0 then d - 1 else d)"

definition depth :: "pystr \<Rightarrow> int" where
  "depth cs = foldl depth_step 0 cs"

text \<open>
  \<open>closes_at content from p\<close>: position \<open>p\<close> of \<open>content\<close> holds a closing brace, and the
  depth of the text between \<open>from\<close> and \<open>p\<close> is 0.
\<close>

definition closes_at :: "pystr \<Rightarrow> nat \<Rightarrow> nat \<Rightarrow> bool" where
  "closes_at content from p \<longleftrightarrow>
     from \<le> p \<and> p < length content \<and> content ! p = RBRACE \<and>
     depth (take (p - from) (drop from content)) = 0"

text \<open>\<open>first_occurrence p s i\<close>: the leftmost occurrence of \<open>p\<close> in \<open>s\<close> starts at index \<open>i\<close>.\<close>

definition first_occurrence :: "pystr \<Rightarrow> pystr \<Rightarrow> nat \<Rightarrow> bool" where
  "first_occurrence p s i \<longleftrightarrow>
     i \<le> length s \<and> take (length p) (drop i s) = p \<and>
     (\<forall>j<i. take (length p) (drop j s) \<noteq> p)"

text \<open>
  Three devices for the proofs about running the pipeline twice.  \<open>before p s\<close> is the text
  in front of the leftmost occurrence of \<open>p\<close> in \<open>s\<close> (its length is what \<open>search\<close> returns),
  \<open>scan_prefix cs bc\<close> is the text \<open>scan\<close> reads up to and including the closing brace it
  stops at, and \<open>del_blank ls ls'\<close> says that \<open>ls'\<close> is \<open>ls\<close> with some empty lines left out.
\<close>

fun before :: "pystr \<Rightarrow> pystr \<Rightarrow> pystr option" where
  "before p [] = (if p = [] then Some [] else None)"
| "before p (c # cs) =
     (if startswith (c # cs) p then Some [] else map_option (Cons c) (before p cs))"

fun scan_prefix :: "pystr \<Rightarrow> int \<Rightarrow> pystr option" where
  "scan_prefix [] bc = None"
| "scan_prefix (c # cs) bc =
     (if c = LBRACE then map_option (Cons c) (scan_prefix cs (bc + 1))
      else if c = RBRACE then
        (if bc = 0 then Some [c] else map_option (Cons c) (scan_prefix cs (bc - 1)))
      else map_option (Cons c) (scan_prefix cs bc))"

inductive del_blank :: "pystr list \<Rightarrow> pystr list \<Rightarrow> bool" where
  del_nil: "del_blank [] []"
| del_keep: "del_blank ls ls' \<Longrightarrow> del_blank (l # ls) (l # ls')"
| del_drop: "del_blank ls ls' \<Longrightarrow> del_blank ([] # ls) ls'"

section \<open>Evaluation on concrete documents\<close>

lemmas ev = str_def NL_def LBRACE_def RBRACE_def startswith_def contains_def strip_def isspace_def
  comment_open_def comment_close_def separator_def decorative_def verbose_example_def box_def
  entry_header_def block_scanner_def aggressive_simplify_def banned_marker_def section_skip_def

lemmas ev2 = ev closes_at_def depth_def depth_step_def first_occurrence_def

section \<open>The literal search\<close>

lemma search_None_iff:
  "search p s = None \<longleftrightarrow> (\<forall>i\<le>length s. take (length p) (drop i s) \<noteq> p)"
proof (induction s)
  case Nil
  show ?case by auto
next
  case (Cons c cs)
  have "(\<forall>i\<le>length (c # cs). take (length p) (drop i (c # cs)) \<noteq> p) \<longleftrightarrow>
        take (length p) (c # cs) \<noteq> p \<and> (\<forall>i\<le>length cs. take (length p) (drop i cs) \<noteq> p)"
    (is "?L \<longleftrightarrow> ?R")
  proof
    assume l: ?L
    have "take (length p) (drop 0 (c # cs)) \<noteq> p" using l by blast
    moreover have "\<forall>i\<le>length cs. take (length p) (drop i cs) \<noteq> p"
    proof (intro allI impI)
      fix i assume "i \<le> length cs"
      then have "Suc i \<le> length (c # cs)" by simp
      then have "take (length p) (drop (Suc i) (c # cs)) \<noteq> p" using l by blast
      then show "take (length p) (drop i cs) \<noteq> p" by simp
    qed
    ultimately show ?R by simp
  next
    assume r: ?R
    show ?L
    proof (intro allI impI)
      fix i assume "i \<le> length (c # cs)"
      then show "take (length p) (drop i (c # cs)) \<noteq> p"
        using r by (cases i) auto
    qed
  qed
  then show ?case using Cons.IH by (simp add: startswith_def)
qed

lemma search_first:
  "first_occurrence p s i \<Longrightarrow> search p s = Some i"
proof (induction s arbitrary: i)
  case Nil
  then show ?case by (auto simp: first_occurrence_def)
next
  case (Cons c cs)
  show ?case
  proof (cases i)
    case 0
    then show ?thesis using Cons.prems by (simp add: first_occurrence_def startswith_def)
  next
    case (Suc k)
    have n0: "take (length p) (c # cs) \<noteq> p"
      using Cons.prems Suc unfolding first_occurrence_def by (metis drop0 zero_less_Suc)
    have "first_occurrence p cs k"
      unfolding first_occurrence_def
    proof (intro conjI allI impI)
      show "k \<le> length cs" using Cons.prems Suc by (simp add: first_occurrence_def)
      show "take (length p) (drop k cs) = p" using Cons.prems Suc by (simp add: first_occurrence_def)
      fix j assume "j < k"
      then have "Suc j < i" using Suc by simp
      then have "take (length p) (drop (Suc j) (c # cs)) \<noteq> p"
        using Cons.prems unfolding first_occurrence_def by blast
      then show "take (length p) (drop j cs) \<noteq> p" by simp
    qed
    then have "search p cs = Some k" by (rule Cons.IH)
    then show ?thesis using n0 Suc by (simp add: startswith_def)
  qed
qed

lemma first_occurrence_header_fits:
  assumes "first_occurrence p s i"
  shows "i + length p \<le> length s"
proof -
  have "length (take (length p) (drop i s)) = length p"
    using assms by (simp add: first_occurrence_def)
  then have "length p \<le> length s - i" by simp
  moreover have "i \<le> length s" using assms by (simp add: first_occurrence_def)
  ultimately show ?thesis by arith
qed

lemma search_absent:
  "search p s = None \<longleftrightarrow> \<not> (\<exists>pre post. s = pre @ p @ post)"
proof
  assume none: "search p s = None"
  show "\<not> (\<exists>pre post. s = pre @ p @ post)"
  proof
    assume "\<exists>pre post. s = pre @ p @ post"
    then obtain pre post where eq: "s = pre @ p @ post" by blast
    then have "take (length p) (drop (length pre) s) = p" by simp
    moreover have "length pre \<le> length s" using eq by simp
    ultimately show False using none search_None_iff by blast
  qed
next
  assume absent: "\<not> (\<exists>pre post. s = pre @ p @ post)"
  have "\<forall>i\<le>length s. take (length p) (drop i s) \<noteq> p"
  proof (intro allI impI)
    fix i assume "i \<le> length s"
    show "take (length p) (drop i s) \<noteq> p"
    proof
      assume h: "take (length p) (drop i s) = p"
      have "s = take i s @ take (length p) (drop i s) @ drop (length p) (drop i s)"
        by (metis append_take_drop_id)
      then have "s = take i s @ p @ drop (length p) (drop i s)"
        using h by simp
      then show False using absent by blast
    qed
  qed
  then show "search p s = None" by (simp add: search_None_iff)
qed

section \<open>The brace scan\<close>

lemma scan_found:
  "0 \<le> bc \<Longrightarrow> k < length cs \<Longrightarrow> cs ! k = RBRACE \<Longrightarrow> foldl depth_step bc (take k cs) = 0 \<Longrightarrow>
   (\<forall>j<k. \<not> (cs ! j = RBRACE \<and> foldl depth_step bc (take j cs) = 0)) \<Longrightarrow>
   scan cs pos bc = Some (pos + k)"
proof (induction cs arbitrary: k pos bc)
  case Nil
  then show ?case by simp
next
  case (Cons c cs)
  show ?case
  proof (cases k)
    case 0
    then show ?thesis using Cons.prems by (simp add: LBRACE_def RBRACE_def)
  next
    case (Suc k')
    have first: "\<not> (c = RBRACE \<and> bc = 0)"
      using Cons.prems(5) Suc by force
    have nn: "0 \<le> depth_step bc c"
      using Cons.prems(1) by (simp add: depth_step_def)
    have a: "k' < length cs" and b: "cs ! k' = RBRACE"
      and c: "foldl depth_step (depth_step bc c) (take k' cs) = 0"
      using Cons.prems Suc by simp_all
    have d: "\<forall>j<k'. \<not> (cs ! j = RBRACE \<and> foldl depth_step (depth_step bc c) (take j cs) = 0)"
    proof (intro allI impI)
      fix j assume "j < k'"
      then have "Suc j < k" using Suc by simp
      then have "\<not> ((c # cs) ! Suc j = RBRACE \<and> foldl depth_step bc (take (Suc j) (c # cs)) = 0)"
        using Cons.prems(5) by blast
      then show "\<not> (cs ! j = RBRACE \<and> foldl depth_step (depth_step bc c) (take j cs) = 0)"
        by simp
    qed
    have ih: "scan cs (pos + 1) (depth_step bc c) = Some (pos + 1 + k')"
      by (rule Cons.IH [OF nn a b c d])
    show ?thesis
      using ih first Suc Cons.prems(1) by (auto simp: depth_step_def)
  qed
qed

lemma scan_not_found:
  "0 \<le> bc \<Longrightarrow> (\<forall>k<length cs. \<not> (cs ! k = RBRACE \<and> foldl depth_step bc (take k cs) = 0)) \<Longrightarrow>
   scan cs pos bc = None"
proof (induction cs arbitrary: pos bc)
  case Nil
  then show ?case by simp
next
  case (Cons c cs)
  have first: "\<not> (c = RBRACE \<and> bc = 0)"
    using Cons.prems(2) by force
  have nn: "0 \<le> depth_step bc c"
    using Cons.prems(1) by (simp add: depth_step_def)
  have d: "\<forall>j<length cs. \<not> (cs ! j = RBRACE \<and> foldl depth_step (depth_step bc c) (take j cs) = 0)"
  proof (intro allI impI)
    fix j assume "j < length cs"
    then have "Suc j < length (c # cs)" by simp
    then have "\<not> ((c # cs) ! Suc j = RBRACE \<and> foldl depth_step bc (take (Suc j) (c # cs)) = 0)"
      using Cons.prems(2) by blast
    then show "\<not> (cs ! j = RBRACE \<and> foldl depth_step (depth_step bc c) (take j cs) = 0)"
      by simp
  qed
  have ih: "scan cs (pos + 1) (depth_step bc c) = None"
    by (rule Cons.IH [OF nn d])
  show ?case
    using ih first Cons.prems(1) by (auto simp: depth_step_def)
qed

lemma scan_at_first_close:
  assumes e: "e \<le> p" and c: "closes_at content e p"
    and least: "\<forall>q<p. \<not> closes_at content e q"
  shows "scan (drop e content) e 0 = Some p"
proof -
  let ?cs = "drop e content"
  let ?k = "p - e"
  have k: "?k < length ?cs" using c by (auto simp: closes_at_def)
  have at: "?cs ! ?k = RBRACE" using c by (auto simp: closes_at_def)
  have d0: "foldl depth_step 0 (take ?k ?cs) = 0"
    using c by (simp add: closes_at_def depth_def)
  have before: "\<forall>j<?k. \<not> (?cs ! j = RBRACE \<and> foldl depth_step 0 (take j ?cs) = 0)"
  proof (intro allI impI)
    fix j assume j: "j < ?k"
    then have "e + j < p" by simp
    then have "\<not> closes_at content e (e + j)" using least by blast
    moreover have "e + j < length content" using j k by simp
    ultimately show "\<not> (?cs ! j = RBRACE \<and> foldl depth_step 0 (take j ?cs) = 0)"
      by (simp add: closes_at_def depth_def)
  qed
  have "scan ?cs e 0 = Some (e + ?k)"
    by (rule scan_found [OF _ k at d0 before]) simp
  then show ?thesis using e by simp
qed

lemma scan_no_close:
  assumes "\<forall>p. \<not> closes_at content e p"
  shows "scan (drop e content) e 0 = None"
proof (rule scan_not_found)
  show "(0::int) \<le> 0" by simp
  show "\<forall>k<length (drop e content).
          \<not> (drop e content ! k = RBRACE \<and> foldl depth_step 0 (take k (drop e content)) = 0)"
  proof (intro allI impI)
    fix k assume k: "k < length (drop e content)"
    have "\<not> closes_at content e (e + k)" using assms by blast
    then show "\<not> (drop e content ! k = RBRACE \<and> foldl depth_step 0 (take k (drop e content)) = 0)"
      using k by (simp add: closes_at_def depth_def)
  qed
qed

lemma scan_balance:
  "scan cs pos bc = Some e \<Longrightarrow> 0 \<le> bc \<Longrightarrow>
   pos \<le> e \<and> e - pos < length cs \<and>
   int (count_list (take (e - pos + 1) cs) RBRACE) =
     int (count_list (take (e - pos + 1) cs) LBRACE) + bc + 1"
proof (induction cs arbitrary: pos bc)
  case Nil
  then show ?case by simp
next
  case (Cons c cs)
  show ?case
  proof (cases "c = RBRACE \<and> bc = 0")
    case True
    then show ?thesis using Cons.prems by (simp add: LBRACE_def RBRACE_def)
  next
    case False
    have nn: "0 \<le> depth_step bc c"
      using Cons.prems(2) by (simp add: depth_step_def)
    have "scan cs (pos + 1) (depth_step bc c) = Some e"
      using Cons.prems False by (auto simp: depth_step_def split: if_splits)
    from Cons.IH [OF this nn]
    have ih: "pos + 1 \<le> e" "e - (pos + 1) < length cs"
      "int (count_list (take (e - (pos + 1) + 1) cs) RBRACE) =
       int (count_list (take (e - (pos + 1) + 1) cs) LBRACE) + depth_step bc c + 1"
      by simp_all
    have eq: "e - pos + 1 = Suc (e - (pos + 1) + 1)" using ih(1) by simp
    show ?thesis
      unfolding eq using ih False Cons.prems(2)
      by (auto simp: depth_step_def LBRACE_def RBRACE_def)
  qed
qed

lemma least_close:
  assumes "closes_at content e p"
  obtains p0 where "closes_at content e p0" and "\<forall>q<p0. \<not> closes_at content e q"
proof -
  define p0 where "p0 = (LEAST q. closes_at content e q)"
  have "closes_at content e p0"
    unfolding p0_def using assms by (rule LeastI)
  moreover have "\<forall>q<p0. \<not> closes_at content e q"
    unfolding p0_def using not_less_Least by blast
  ultimately show thesis using that by blast
qed

lemma header_braces:
  "count_list entry_header LBRACE = 1" "count_list entry_header RBRACE = 0"
  by (simp_all add: ev)

lemma no_close_before:
  "(\<forall>q<p. \<not> closes_at c e q) \<longleftrightarrow> list_all (\<lambda>q. \<not> closes_at c e q) [e..<p]"
  by (auto simp: list_all_iff closes_at_def)

lemma no_close_at_all:
  "(\<forall>q. \<not> closes_at c e q) \<longleftrightarrow> list_all (\<lambda>q. \<not> closes_at c e q) [e..<length c]"
  by (auto simp: list_all_iff closes_at_def)

section \<open>Properties of the Block Scanner\<close>

text \<open>
  Claim C1.  If the document contains the entry header \<^verbatim>\<open>func main() {\<close>, its leftmost
  occurrence starting at \<open>s\<close>, and \<open>p\<close> is the first position behind the header that holds
  a closing brace seen at depth 0, then the Block Scanner returns the prefix of the
  document that ends at \<open>p\<close>, inclusive.  Closing braces at a depth above 0 lie before \<open>p\<close>
  and do not end the scan; everything behind \<open>p\<close> is dropped.
\<close>

theorem block_scanner_truncates:
  assumes "first_occurrence entry_header content s"
    and "closes_at content (s + length entry_header) p"
    and "\<forall>q<p. \<not> closes_at content (s + length entry_header) q"
  shows "block_scanner content = take (p + 1) content"
proof -
  have "search entry_header content = Some s"
    using assms(1) by (rule search_first)
  moreover have "s + length entry_header \<le> p"
    using assms(2) by (simp add: closes_at_def)
  then have "scan (drop (s + length entry_header) content) (s + length entry_header) 0 = Some p"
    using assms(2,3) by (rule scan_at_first_close)
  ultimately show ?thesis by (simp add: block_scanner_def)
qed

theorem block_scanner_truncates_witness:
  "block_scanner (str ''package x; func main() { if a { b } } func tail() { }'') =
     str ''package x; func main() { if a { b } }''"
proof -
  let ?c = "str ''package x; func main() { if a { b } } func tail() { }''"
  have h1: "first_occurrence entry_header ?c 11"
    by (simp add: ev2 numeral_eq_Suc less_Suc_eq)
  have h2: "closes_at ?c (11 + length entry_header) 36"
    by (simp add: ev2)
  have h3: "\<forall>q<36. \<not> closes_at ?c (11 + length entry_header) q"
    unfolding no_close_before by (simp add: ev2 upt_rec_numeral)
  have "block_scanner ?c = take (36 + 1) ?c"
    using h1 h2 h3 by (rule block_scanner_truncates)
  then show ?thesis by (simp add: str_def)
qed

text \<open>
  Claim C2.  If the document contains the entry header and no closing brace is ever seen
  at depth 0 behind it, the Block Scanner returns the document as it is.
\<close>

theorem block_scanner_unterminated:
  assumes "first_occurrence entry_header content s"
    and "\<forall>p. \<not> closes_at content (s + length entry_header) p"
  shows "block_scanner content = content"
proof -
  have "search entry_header content = Some s"
    using assms(1) by (rule search_first)
  moreover have "scan (drop (s + length entry_header) content) (s + length entry_header) 0 = None"
    using assms(2) by (rule scan_no_close)
  ultimately show ?thesis by (simp add: block_scanner_def)
qed

theorem block_scanner_unterminated_witness:
  "block_scanner (str ''func main() { if a { b }'') = str ''func main() { if a { b }''"
proof -
  let ?c = "str ''func main() { if a { b }''"
  have h1: "first_occurrence entry_header ?c 0"
    by (simp add: ev2)
  have h2: "\<forall>p. \<not> closes_at ?c (0 + length entry_header) p"
    unfolding no_close_at_all by (simp add: ev2 upt_rec_numeral)
  show ?thesis
    using h1 h2 by (rule block_scanner_unterminated)
qed

text \<open>
  Claim C3.  If the entry header does not occur in the document, the Block Scanner
  returns the document as it is.  So when that document is the filtered text of an input,
  \<^verbatim>\<open>aggressive_simplify\<close> returns the filtered text with only the blank-run collapse and
  the cleanup of box-drawing characters applied.
\<close>

theorem block_scanner_absent:
  assumes "\<not> (\<exists>pre post. content = pre @ entry_header @ post)"
  shows "block_scanner content = content \<and>
         (content = join_lines (noise_loop (split_lines (change_package True input))) \<longrightarrow>
            aggressive_simplify input = clean_decorative (collapse_newlines content))"
proof -
  have "search entry_header content = None"
    using assms by (simp add: search_absent)
  then have same: "block_scanner content = content" by (simp add: block_scanner_def)
  have "aggressive_simplify input = clean_decorative (collapse_newlines content)"
    if "content = join_lines (noise_loop (split_lines (change_package True input)))"
    using same unfolding that by (simp add: aggressive_simplify_def)
  then show ?thesis using same by blast
qed

theorem block_scanner_absent_witness:
  "block_scanner (str ''package intermediate'' @ NL # str ''func helper() { }'') =
     str ''package intermediate'' @ NL # str ''func helper() { }'' \<and>
   aggressive_simplify (str ''package main'' @ NL # str ''// Example'' @ NL # str ''func helper() { }'') =
     str ''package intermediate'' @ NL # str ''func helper() { }''"
proof -
  let ?c = "str ''package intermediate'' @ NL # str ''func helper() { }''"
  let ?i = "str ''package main'' @ NL # str ''// Example'' @ NL # str ''func helper() { }''"
  have "search entry_header ?c = None" by (simp add: ev)
  then have h: "\<not> (\<exists>pre post. ?c = pre @ entry_header @ post)"
    using search_absent [of entry_header ?c] by blast
  have f: "?c = join_lines (noise_loop (split_lines (change_package True ?i)))"
    by (simp add: ev)
  have "clean_decorative (collapse_newlines ?c) = ?c" by (simp add: ev)
  then show ?thesis
    using block_scanner_absent [OF h, of ?i] f by simp
qed

text \<open>
  Claim C9, as the code has it.  The Block Scanner keeps the text before the entry header
  too (\<^verbatim>\<open>content[:pos+1]\<close>), so the whole output need not be balanced: the document
  below has a closing brace in a comment before the header.
\<close>

theorem block_scanner_output_unbalanced:
  "block_scanner (str ''// }'' @ NL # str ''func main() { if a { b } } tail'') =
     str ''// }'' @ NL # str ''func main() { if a { b } }'' \<and>
   count_list (str ''// }'' @ NL # str ''func main() { if a { b } }'') LBRACE = 2 \<and>
   count_list (str ''// }'' @ NL # str ''func main() { if a { b } }'') RBRACE = 3"
  by (simp add: ev)

text \<open>
  Claim C9, amended.  When the Block Scanner finds the entry header (leftmost at \<open>s\<close>) and a
  closing brace at depth 0 behind it, the part of its output from the header on holds as
  many opening as closing braces; the whole output is as unbalanced as the text before
  the header is.
\<close>

theorem block_scanner_block_balanced:
  assumes "first_occurrence entry_header content s"
    and "closes_at content (s + length entry_header) p"
  shows "count_list (drop s (block_scanner content)) LBRACE =
           count_list (drop s (block_scanner content)) RBRACE \<and>
         int (count_list (block_scanner content) LBRACE) - int (count_list (block_scanner content) RBRACE) =
           int (count_list (take s content) LBRACE) - int (count_list (take s content) RBRACE)"
proof -
  let ?e = "s + length entry_header"
  obtain p0 where p0: "closes_at content ?e p0" and least: "\<forall>q<p0. \<not> closes_at content ?e q"
    using assms(2) by (rule least_close)
  have le: "?e \<le> p0" using p0 by (simp add: closes_at_def)
  have sc: "scan (drop ?e content) ?e 0 = Some p0"
    using le p0 least by (rule scan_at_first_close)
  have "search entry_header content = Some s"
    using assms(1) by (rule search_first)
  then have out: "block_scanner content = take (p0 + 1) content"
    using sc by (simp add: block_scanner_def)
  let ?body = "take (p0 - ?e + 1) (drop ?e content)"
  have bal: "int (count_list ?body RBRACE) = int (count_list ?body LBRACE) + 1"
    using scan_balance [OF sc] by simp
  have hdr: "take (length entry_header) (drop s content) = entry_header"
    using assms(1) by (simp add: first_occurrence_def)
  have split1: "take (p0 + 1) content = take s (take (p0 + 1) content) @ drop s (take (p0 + 1) content)"
    by (rule append_take_drop_id [symmetric])
  have ts: "take s (take (p0 + 1) content) = take s content"
    using le by (simp add: min_def)
  have "drop s (take (p0 + 1) content) = take (p0 + 1 - s) (drop s content)"
    by (simp add: drop_take)
  also have "\<dots> = take (length entry_header + (p0 - ?e + 1)) (drop s content)"
  proof -
    have "p0 + 1 - s = length entry_header + (p0 - ?e + 1)" using le by arith
    then show ?thesis by simp
  qed
  also have "\<dots> = take (length entry_header) (drop s content) @ ?body"
    by (simp only: take_add drop_drop add.commute)
  finally have block: "drop s (take (p0 + 1) content) = entry_header @ ?body"
    using hdr by simp
  have whole: "take (p0 + 1) content = take s content @ entry_header @ ?body"
    using split1 ts block by simp
  have a: "count_list (drop s (block_scanner content)) LBRACE =
           count_list (drop s (block_scanner content)) RBRACE"
    unfolding out block using bal header_braces by simp
  have b: "int (count_list (block_scanner content) LBRACE) - int (count_list (block_scanner content) RBRACE) =
           int (count_list (take s content) LBRACE) - int (count_list (take s content) RBRACE)"
    unfolding out whole using bal header_braces by simp
  show ?thesis using a b by blast
qed

theorem block_scanner_block_balanced_witness:
  "count_list (drop 5 (block_scanner (str ''// }'' @ NL # str ''func main() { if a { b } } tail''))) LBRACE =
   count_list (drop 5 (block_scanner (str ''// }'' @ NL # str ''func main() { if a { b } } tail''))) RBRACE"
proof -
  let ?c = "str ''// }'' @ NL # str ''func main() { if a { b } } tail''"
  have h1: "first_occurrence entry_header ?c 5"
    by (simp add: ev2 numeral_eq_Suc less_Suc_eq)
  have h2: "closes_at ?c (5 + length entry_header) 30"
    by (simp add: ev2)
  show ?thesis
    using block_scanner_block_balanced [OF h1 h2] by blast
qed

section \<open>Properties of the line filter\<close>

lemma consume_take_drop:
  "consume ls =
     (take (Suc (length (takeWhile (\<lambda>l. \<not> contains comment_close l) ls))) ls,
      drop (Suc (length (takeWhile (\<lambda>l. \<not> contains comment_close l) ls))) ls)"
  by (induction ls) auto

lemma noise_loop_append:
  "(\<forall>l\<in>set pre. \<not> startswith (strip l) comment_open) \<Longrightarrow>
   noise_loop (pre @ ys) = noise_loop pre @ noise_loop ys"
  by (induction pre) auto

lemma decorative_iff:
  "decorative line \<longleftrightarrow>
     (\<exists>run tail. line = run @ tail \<and> 30 \<le> length run \<and> (\<forall>c\<in>set run. separator c))"
proof
  assume "decorative line"
  then have "30 \<le> length (takeWhile separator line)" by (simp add: decorative_def)
  moreover have "line = takeWhile separator line @ dropWhile separator line" by simp
  moreover have "\<forall>c\<in>set (takeWhile separator line). separator c"
    using set_takeWhileD by fastforce
  ultimately show "\<exists>run tail. line = run @ tail \<and> 30 \<le> length run \<and> (\<forall>c\<in>set run. separator c)"
    by blast
next
  assume "\<exists>run tail. line = run @ tail \<and> 30 \<le> length run \<and> (\<forall>c\<in>set run. separator c)"
  then obtain run tail where l: "line = run @ tail" and n: "30 \<le> length run"
    and s: "\<forall>c\<in>set run. separator c" by blast
  have "takeWhile separator line = run @ takeWhile separator tail"
    unfolding l using s by simp
  then show "decorative line" using n by (simp add: decorative_def)
qed

lemma forty_equals:
  "decorative (replicate 40 61)" "\<not> startswith (strip (replicate 40 61)) comment_open"
proof -
  have sep: "separator 61" by (simp add: separator_def)
  then show "decorative (replicate 40 61)" by (simp add: decorative_def)
  have "\<not> isspace 61" by (simp add: isspace_def)
  then have "strip (replicate 40 61) = replicate 40 61"
    by (simp add: strip_def)
  moreover have "take 2 (replicate 40 (61::nat)) = [61, 61]"
    by (simp add: numeral_2_eq_2)
  ultimately show "\<not> startswith (strip (replicate 40 61)) comment_open"
    by (simp add: startswith_def comment_open_def str_def)
qed

text \<open>
  Claim C4.  When the line loop reaches a line whose trimmed content begins with \<^verbatim>\<open>/*\<close>,
  the comment block is that line and the lines after it up to and including the first one
  that contains \<^verbatim>\<open>*/\<close> (all remaining lines when none does).  The block is emitted
  unchanged when it has fewer than 4 lines and nothing of it is emitted otherwise; the
  loop goes on behind the block.
\<close>

theorem comment_block_rule:
  assumes "startswith (strip line) comment_open"
  shows "noise_loop (line # rest) =
     (let n = Suc (length (takeWhile (\<lambda>l. \<not> contains comment_close l) rest));
          block = line # take n rest
      in (if length block < 4 then block else []) @ noise_loop (drop n rest))"
  using assms by (simp add: consume_take_drop Let_def)

theorem comment_block_rule_witness:
  "noise_loop [str ''  /* short'', str ''  note */'', str ''x := 1'',
               str ''/*'', str '' * long'', str '' * note'', str '' */'', str ''y := 2''] =
     [str ''  /* short'', str ''  note */'', str ''x := 1'', str ''y := 2'']"
proof -
  have a: "startswith (strip (str ''  /* short'')) comment_open" by (simp add: ev)
  show ?thesis
    by (subst comment_block_rule [OF a]) (simp add: ev)
qed

text \<open>
  Claim C10.  A closing marker on the opening line itself is not looked at: the block runs
  on to the next later line that contains \<^verbatim>\<open>*/\<close> (or to the end), as for any other
  opening line.  So when at least three lines follow and the first two of them hold no
  closing marker, the one-line comment and the lines absorbed with it are dropped.
\<close>

theorem one_line_comment_absorbs:
  assumes "startswith (strip line) comment_open" and "contains comment_close line"
  shows "noise_loop (line # rest) =
     (let n = Suc (length (takeWhile (\<lambda>l. \<not> contains comment_close l) rest));
          block = line # take n rest
      in (if length block < 4 then block else []) @ noise_loop (drop n rest)) \<and>
     (3 \<le> length rest \<and> 2 \<le> length (takeWhile (\<lambda>l. \<not> contains comment_close l) rest) \<longrightarrow>
        noise_loop (line # rest) =
          noise_loop (drop (Suc (length (takeWhile (\<lambda>l. \<not> contains comment_close l) rest))) rest))"
proof (intro conjI impI)
  show "noise_loop (line # rest) =
     (let n = Suc (length (takeWhile (\<lambda>l. \<not> contains comment_close l) rest));
          block = line # take n rest
      in (if length block < 4 then block else []) @ noise_loop (drop n rest))"
    using assms(1) by (simp add: consume_take_drop Let_def)
next
  let ?n = "Suc (length (takeWhile (\<lambda>l. \<not> contains comment_close l) rest))"
  assume "3 \<le> length rest \<and> 2 \<le> length (takeWhile (\<lambda>l. \<not> contains comment_close l) rest)"
  then have "3 \<le> length (take ?n rest)" by (simp add: min_def)
  then have "\<not> length (line # take ?n rest) < 4" by (simp del: length_take)
  then show "noise_loop (line # rest) = noise_loop (drop ?n rest)"
    using assms(1) by (simp add: consume_take_drop Let_def del: length_take)
qed

theorem one_line_comment_absorbs_witness:
  "noise_loop [str ''/* note */'', str ''x := 1'', str ''y := 2'', str ''/* more */'', str ''z := 3'']
     = [str ''z := 3'']"
proof -
  have a: "startswith (strip (str ''/* note */'')) comment_open" by (simp add: ev)
  have b: "contains comment_close (str ''/* note */'')" by (simp add: ev)
  show ?thesis
    using one_line_comment_absorbs [OF a b, of "[str ''x := 1'', str ''y := 2'', str ''/* more */'', str ''z := 3'']"]
    by (simp add: ev)
qed

text \<open>
  Claim C5, as the code has it.  \<^verbatim>\<open>re.match\<close> anchors the pattern at the start of the
  line only: a line of 30 \<^verbatim>\<open>=\<close> followed by other content is removed as well.
\<close>

theorem decorative_rule_counterexample:
  "decorative (str ''==============================x'') \<and>
   \<not> separator (last (str ''==============================x'')) \<and>
   noise_loop [str ''a'', str ''==============================x'', str ''b''] = [str ''a'', str ''b'']"
  by (simp add: ev)

text \<open>
  Claim C5, amended.  A line is decorative exactly when it begins with at least 30
  characters of the separator alphabet, whatever follows them.  A line that does not open
  a comment block is removed by the rule exactly when it is decorative (the rule comes
  before the \<^verbatim>\<open>Example\<close> rule).  A line of 40 \<^verbatim>\<open>=\<close> (code point 61) is removed wherever
  it stands behind lines none of which opens a comment block.
\<close>

theorem decorative_line_rule:
  "(decorative line \<longleftrightarrow>
      (\<exists>run tail. line = run @ tail \<and> 30 \<le> length run \<and> (\<forall>c\<in>set run. separator c))) \<and>
   (\<not> startswith (strip line) comment_open \<longrightarrow>
      noise_loop (line # rest) =
        (if decorative line then noise_loop rest
         else if verbose_example line then noise_loop rest
         else line # noise_loop rest)) \<and>
   ((\<forall>l\<in>set pre. \<not> startswith (strip l) comment_open) \<longrightarrow>
      noise_loop (pre @ replicate 40 61 # rest) = noise_loop pre @ noise_loop rest)"
proof (intro conjI impI)
  show "decorative line \<longleftrightarrow>
      (\<exists>run tail. line = run @ tail \<and> 30 \<le> length run \<and> (\<forall>c\<in>set run. separator c))"
    by (rule decorative_iff)
next
  assume "\<not> startswith (strip line) comment_open"
  then show "noise_loop (line # rest) =
        (if decorative line then noise_loop rest
         else if verbose_example line then noise_loop rest
         else line # noise_loop rest)"
    by simp
next
  assume "\<forall>l\<in>set pre. \<not> startswith (strip l) comment_open"
  then have "noise_loop (pre @ replicate 40 61 # rest) = noise_loop pre @ noise_loop (replicate 40 61 # rest)"
    by (rule noise_loop_append)
  then show "noise_loop (pre @ replicate 40 61 # rest) = noise_loop pre @ noise_loop rest"
    using forty_equals by simp
qed

theorem decorative_line_rule_witness:
  "noise_loop ([str ''a := 1'', str ''b := 2''] @ replicate 40 61 # [str ''c := 3'']) =
     [str ''a := 1'', str ''b := 2'', str ''c := 3''] \<and>
   noise_loop [str ''// ============================ Part 1'', str ''d := 4''] = [str ''d := 4'']"
proof -
  have a: "\<forall>l\<in>set [str ''a := 1'', str ''b := 2'']. \<not> startswith (strip l) comment_open"
    by (simp add: ev)
  have one: "noise_loop ([str ''a := 1'', str ''b := 2''] @ replicate 40 61 # [str ''c := 3'']) =
        noise_loop [str ''a := 1'', str ''b := 2''] @ noise_loop [str ''c := 3'']"
    using decorative_line_rule [where pre = "[str ''a := 1'', str ''b := 2'']" and rest = "[str ''c := 3'']"] a
    by blast
  let ?l = "str ''// ============================ Part 1''"
  have b: "\<not> startswith (strip ?l) comment_open" by (simp add: ev)
  have c: "?l = str ''// ============================ '' @ str ''Part 1''" by (simp add: ev)
  have d: "30 \<le> length (str ''// ============================ '')" by (simp add: ev)
  have e: "\<forall>c\<in>set (str ''// ============================ ''). separator c" by (simp add: ev)
  have dec: "decorative ?l"
    using decorative_line_rule [of ?l] c d e by blast
  have two: "noise_loop [?l, str ''d := 4''] = noise_loop [str ''d := 4'']"
    using decorative_line_rule [of ?l "[str ''d := 4'']"] b dec by simp
  show ?thesis using one two by (simp add: ev)
qed

section \<open>Properties of the section skip\<close>

lemma skip_loop_skipping:
  "skip_loop True ls =
     (case dropWhile (\<lambda>l. \<not> (startswith (strip l) (str ''func '') \<and> \<not> banned_marker l)) ls of
        [] \<Rightarrow> []
      | l # after \<Rightarrow> l # skip_loop False after)"
  by (induction ls) auto

text \<open>
  Claim C6, as the code has it.  The marker test comes first in the \<^verbatim>\<open>if\<close>/\<^verbatim>\<open>elif\<close>
  chain: a line that begins with \<^verbatim>\<open>func \<close> and holds a banned phrase itself keeps the
  skip on and is not emitted.
\<close>

theorem section_skip_counterexample:
  "banned_marker (str ''// KEY TAKEAWAYS'') \<and>
   startswith (strip (str ''func KEY TAKEAWAYS() {'')) (str ''func '') \<and>
   skip_loop False [str ''// KEY TAKEAWAYS'', str ''func KEY TAKEAWAYS() {'', str ''}''] = [] \<and>
   section_skip (str ''// KEY TAKEAWAYS'' @ NL # str ''func KEY TAKEAWAYS() {'' @ NL # str ''}'') = []"
  by (simp add: ev)

text \<open>
  Claim C6, amended.  From a line that holds a banned phrase on, nothing is emitted up to
  but not including the next line whose trimmed content begins with \<^verbatim>\<open>func \<close> and that
  holds no banned phrase; that line is emitted and the loop goes on from behind it with
  the skip cleared.  When there is no such line nothing more is emitted.
\<close>

theorem section_skip_rule:
  assumes "banned_marker marker"
  shows "skip_loop skipping (marker # rest) =
     (case dropWhile (\<lambda>l. \<not> (startswith (strip l) (str ''func '') \<and> \<not> banned_marker l)) rest of
        [] \<Rightarrow> []
      | l # after \<Rightarrow> l # skip_loop False after)"
  using assms by (simp add: skip_loop_skipping)

theorem section_skip_rule_witness:
  "skip_loop False [str ''x := 1'', str ''// KEY TAKEAWAYS'', str ''// 1. be brief'', str ''  func f() {'', str ''}'']
     = [str ''x := 1'', str ''  func f() {'', str ''}'']"
proof -
  have a: "banned_marker (str ''// KEY TAKEAWAYS'')" by (simp add: ev)
  have "skip_loop False [str ''x := 1'', str ''// KEY TAKEAWAYS'', str ''// 1. be brief'', str ''  func f() {'', str ''}'']
      = str ''x := 1'' # skip_loop False [str ''// KEY TAKEAWAYS'', str ''// 1. be brief'', str ''  func f() {'', str ''}'']"
    by (simp add: ev)
  then show ?thesis
    by (simp only: section_skip_rule [OF a]) (simp add: ev)
qed

section \<open>Properties of the blank-run collapse\<close>

lemma takeWhile_nl_append:
  assumes "xs \<noteq> []" "last xs \<noteq> NL"
  shows "takeWhile (\<lambda>x. x = NL) (xs @ zs) = takeWhile (\<lambda>x. x = NL) xs"
    and "dropWhile (\<lambda>x. x = NL) (xs @ zs) = dropWhile (\<lambda>x. x = NL) xs @ zs"
proof -
  have "last xs \<in> set xs" using assms(1) by simp
  then show "takeWhile (\<lambda>x. x = NL) (xs @ zs) = takeWhile (\<lambda>x. x = NL) xs"
    and "dropWhile (\<lambda>x. x = NL) (xs @ zs) = dropWhile (\<lambda>x. x = NL) xs @ zs"
    using assms(2) by simp_all
qed

lemma takeWhile_dropWhile_nil:
  "takeWhile P (dropWhile P xs) = []"
  by (induction xs) auto

lemma last_dropWhile_nl:
  assumes "xs \<noteq> []" "last xs \<noteq> NL"
  shows "dropWhile (\<lambda>x. x = NL) xs \<noteq> [] \<and> last (dropWhile (\<lambda>x. x = NL) xs) = last xs"
  using assms by (induction xs) (auto split: if_splits)

lemma collapse_append:
  "xs \<noteq> [] \<Longrightarrow> last xs \<noteq> NL \<Longrightarrow>
   collapse_newlines (xs @ zs) = collapse_newlines xs @ collapse_newlines zs"
proof (induction xs rule: collapse_newlines.induct)
  case 1
  then show ?case by simp
next
  case (2 c cs)
  have tw: "takeWhile (\<lambda>x. x = NL) ((c # cs) @ zs) = takeWhile (\<lambda>x. x = NL) (c # cs)"
    using "2.prems" by (rule takeWhile_nl_append(1))
  show ?case
  proof (cases "3 \<le> length (takeWhile (\<lambda>x. x = NL) (c # cs))")
    case True
    then have c: "c = NL" by (auto split: if_splits)
    then have cs: "cs \<noteq> []" "last cs \<noteq> NL" using "2.prems" by (auto split: if_splits)
    have d: "dropWhile (\<lambda>x. x = NL) cs \<noteq> []" "last (dropWhile (\<lambda>x. x = NL) cs) \<noteq> NL"
      using last_dropWhile_nl [OF cs] cs by simp_all
    have ih: "collapse_newlines (dropWhile (\<lambda>x. x = NL) cs @ zs) =
              collapse_newlines (dropWhile (\<lambda>x. x = NL) cs) @ collapse_newlines zs"
      using "2.IH"(1) [OF True d] .
    have dw: "dropWhile (\<lambda>x. x = NL) (cs @ zs) = dropWhile (\<lambda>x. x = NL) cs @ zs"
      using cs by (rule takeWhile_nl_append(2))
    have "collapse_newlines ((c # cs) @ zs) =
          NL # NL # collapse_newlines (dropWhile (\<lambda>x. x = NL) (cs @ zs))"
      using True tw by (simp del: takeWhile.simps)
    also have "\<dots> = NL # NL # collapse_newlines (dropWhile (\<lambda>x. x = NL) cs) @ collapse_newlines zs"
      using dw ih by simp
    also have "\<dots> = collapse_newlines (c # cs) @ collapse_newlines zs"
      using True by (simp del: takeWhile.simps)
    finally show ?thesis .
  next
    case False
    have step: "collapse_newlines ((c # cs) @ zs) = c # collapse_newlines (cs @ zs)"
      using False tw by (simp del: takeWhile.simps)
    have step': "collapse_newlines (c # cs) = c # collapse_newlines cs"
      using False by (simp del: takeWhile.simps)
    show ?thesis
    proof (cases "cs = []")
      case True
      then show ?thesis using step step' by simp
    next
      case nonempty: False
      then have "last cs \<noteq> NL" using "2.prems" by simp
      then have "collapse_newlines (cs @ zs) = collapse_newlines cs @ collapse_newlines zs"
        using "2.IH"(2) [OF False nonempty] by simp
      then show ?thesis using step step' by simp
    qed
  qed
qed

lemma collapse_no_newline:
  "NL \<notin> set xs \<Longrightarrow> collapse_newlines xs = xs"
  by (induction xs) auto

lemma collapse_run:
  assumes "ys = [] \<or> hd ys \<noteq> NL"
  shows "collapse_newlines (replicate n NL @ ys) =
         replicate (if 3 \<le> n then 2 else n) NL @ collapse_newlines ys"
proof -
  have tw: "takeWhile (\<lambda>x. x = NL) (replicate k NL @ ys) = replicate k NL" for k
    using assms by (cases ys) (auto simp: takeWhile_append)
  have dw: "dropWhile (\<lambda>x. x = NL) (replicate k NL @ ys) = ys" for k
    using assms by (cases ys) (auto simp: dropWhile_append)
  have small: "k < 3 \<Longrightarrow> collapse_newlines (replicate k NL @ ys) = replicate k NL @ collapse_newlines ys" for k
  proof (induction k)
    case 0
    then show ?case by simp
  next
    case (Suc k)
    have "takeWhile (\<lambda>x. x = NL) (NL # replicate k NL @ ys) = replicate (Suc k) NL"
      using tw [of "Suc k"] by simp
    then have "\<not> 3 \<le> length (takeWhile (\<lambda>x. x = NL) (NL # replicate k NL @ ys))"
      using Suc.prems by (simp del: takeWhile.simps)
    then have "collapse_newlines (NL # replicate k NL @ ys) = NL # collapse_newlines (replicate k NL @ ys)"
      by (simp del: takeWhile.simps)
    then show ?case using Suc by simp
  qed
  show ?thesis
  proof (cases "3 \<le> n")
    case True
    then obtain k where n: "n = Suc k" by (cases n) auto
    have "takeWhile (\<lambda>x. x = NL) (NL # replicate k NL @ ys) = replicate (Suc k) NL"
      using tw [of "Suc k"] by simp
    then have "3 \<le> length (takeWhile (\<lambda>x. x = NL) (NL # replicate k NL @ ys))"
      using True n by (simp del: takeWhile.simps)
    then have "collapse_newlines (NL # replicate k NL @ ys) =
               NL # NL # collapse_newlines (dropWhile (\<lambda>x. x = NL) (replicate k NL @ ys))"
      by (simp del: takeWhile.simps)
    then show ?thesis using True n dw [of k] by (simp add: numeral_2_eq_2)
  next
    case False
    then show ?thesis using small [of n] by simp
  qed
qed

lemma collapse_leading_run:
  "length (takeWhile (\<lambda>x. x = NL) (collapse_newlines s)) =
     (if 3 \<le> length (takeWhile (\<lambda>x. x = NL) s) then 2 else length (takeWhile (\<lambda>x. x = NL) s))"
proof (induction s rule: collapse_newlines.induct)
  case 1
  then show ?case by simp
next
  case (2 c cs)
  show ?case
  proof (cases "3 \<le> length (takeWhile (\<lambda>x. x = NL) (c # cs))")
    case True
    have nil: "takeWhile (\<lambda>x. x = NL) (dropWhile (\<lambda>x. x = NL) cs) = []"
      by (rule takeWhile_dropWhile_nil)
    have "length (takeWhile (\<lambda>x. x = NL) (collapse_newlines (dropWhile (\<lambda>x. x = NL) cs))) = 0"
      using "2.IH"(1) [OF True] unfolding nil by simp
    moreover have "collapse_newlines (c # cs) = NL # NL # collapse_newlines (dropWhile (\<lambda>x. x = NL) cs)"
      using True by (simp del: takeWhile.simps)
    ultimately show ?thesis using True by (simp del: takeWhile.simps) simp
  next
    case False
    have eq: "collapse_newlines (c # cs) = c # collapse_newlines cs"
      using False by (simp del: takeWhile.simps)
    show ?thesis
      using False "2.IH"(2) [OF False] unfolding eq by (auto split: if_splits)
  qed
qed

lemma collapse_no_triple_at:
  "take 3 (drop i (collapse_newlines s)) \<noteq> [NL, NL, NL]"
proof (induction s arbitrary: i rule: collapse_newlines.induct)
  case 1
  then show ?case by simp
next
  case (2 c cs)
  show ?case
  proof (cases "3 \<le> length (takeWhile (\<lambda>x. x = NL) (c # cs))")
    case True
    let ?t = "collapse_newlines (dropWhile (\<lambda>x. x = NL) cs)"
    have eq: "collapse_newlines (c # cs) = NL # NL # ?t"
      using True by (simp del: takeWhile.simps)
    have "takeWhile (\<lambda>x. x = NL) (dropWhile (\<lambda>x. x = NL) cs) = []"
      by (rule takeWhile_dropWhile_nil)
    then have "length (takeWhile (\<lambda>x. x = NL) ?t) = 0"
      using collapse_leading_run [of "dropWhile (\<lambda>x. x = NL) cs"] by simp
    then have t: "?t = [] \<or> hd ?t \<noteq> NL"
      by (cases ?t) (auto split: if_splits)
    show ?thesis
    proof (cases i)
      case 0
      then show ?thesis unfolding eq using t by (cases ?t) auto
    next
      case (Suc j)
      show ?thesis
      proof (cases j)
        case 0
        then show ?thesis unfolding eq Suc using t by (cases ?t) auto
      next
        case (Suc k)
        then show ?thesis unfolding eq \<open>i = Suc j\<close> using "2.IH"(1) [OF True, of k] by simp
      qed
    qed
  next
    case False
    have eq: "collapse_newlines (c # cs) = c # collapse_newlines cs"
      using False by (simp del: takeWhile.simps)
    show ?thesis
    proof (cases i)
      case 0
      show ?thesis
      proof
        assume h: "take 3 (drop i (collapse_newlines (c # cs))) = [NL, NL, NL]"
        then have c: "c = NL" and t: "take 2 (collapse_newlines cs) = [NL, NL]"
          unfolding eq 0 by (simp_all add: numeral_3_eq_3 numeral_2_eq_2)
        from t obtain r where r: "collapse_newlines cs = NL # NL # r"
          by (cases "collapse_newlines cs"; cases "tl (collapse_newlines cs)")
             (auto simp: numeral_2_eq_2)
        have "2 \<le> length (takeWhile (\<lambda>x. x = NL) (collapse_newlines cs))"
          unfolding r by simp
        then have "2 \<le> length (takeWhile (\<lambda>x. x = NL) cs)"
          using collapse_leading_run [of cs] by (auto split: if_splits)
        then show False using False c by simp
      qed
    next
      case (Suc j)
      then show ?thesis unfolding eq using "2.IH"(2) [OF False, of j] by simp
    qed
  qed
qed

text \<open>
  Claim C7, as the code has it.  The pattern counts newline characters, not blank lines:
  two blank lines between two lines of text are three newlines and are collapsed to one
  blank line.  And the cleanup of box-drawing characters runs after the collapse, so the
  output of \<^verbatim>\<open>aggressive_simplify\<close> can hold three blank lines in a row.
\<close>

theorem blank_run_collapse_counterexample:
  "split_lines (str ''a'' @ [NL, NL, NL] @ str ''b'') = [str ''a'', [], [], str ''b''] \<and>
   split_lines (collapse_newlines (str ''a'' @ [NL, NL, NL] @ str ''b'')) = [str ''a'', [], str ''b''] \<and>
   aggressive_simplify (str ''a'' @ [NL, NL, 9552, 9552, NL, NL] @ str ''b'') =
     str ''a'' @ [NL, NL, NL, NL] @ str ''b''"
  by (simp add: ev)

text \<open>
  Claim C7, amended.  The collapse replaces every maximal run of 3 or more newline
  characters by exactly two and leaves runs of 1 or 2 newline characters, and text without
  newlines, as they are; its result holds no three newline characters in a row.
\<close>

theorem newline_run_collapse:
  "((xs = [] \<or> last xs \<noteq> NL) \<and> (ys = [] \<or> hd ys \<noteq> NL) \<longrightarrow>
      collapse_newlines (xs @ replicate n NL @ ys) =
        collapse_newlines xs @ replicate (if 3 \<le> n then 2 else n) NL @ collapse_newlines ys) \<and>
   (NL \<notin> set xs \<longrightarrow> collapse_newlines xs = xs) \<and>
   \<not> (\<exists>pre post. collapse_newlines content = pre @ [NL, NL, NL] @ post)"
proof (intro conjI impI)
  assume h: "(xs = [] \<or> last xs \<noteq> NL) \<and> (ys = [] \<or> hd ys \<noteq> NL)"
  then have ys: "ys = [] \<or> hd ys \<noteq> NL" by blast
  show "collapse_newlines (xs @ replicate n NL @ ys) =
        collapse_newlines xs @ replicate (if 3 \<le> n then 2 else n) NL @ collapse_newlines ys"
  proof (cases "xs = []")
    case True
    then show ?thesis using collapse_run [OF ys] by simp
  next
    case False
    then have "last xs \<noteq> NL" using h by blast
    then have "collapse_newlines (xs @ replicate n NL @ ys) =
               collapse_newlines xs @ collapse_newlines (replicate n NL @ ys)"
      using False by (simp add: collapse_append)
    then show ?thesis using collapse_run [OF ys] by simp
  qed
next
  assume "NL \<notin> set xs"
  then show "collapse_newlines xs = xs" by (rule collapse_no_newline)
next
  show "\<not> (\<exists>pre post. collapse_newlines content = pre @ [NL, NL, NL] @ post)"
  proof
    assume "\<exists>pre post. collapse_newlines content = pre @ [NL, NL, NL] @ post"
    then obtain pre post where "collapse_newlines content = pre @ [NL, NL, NL] @ post" by blast
    then have "take 3 (drop (length pre) (collapse_newlines content)) = [NL, NL, NL]" by simp
    then show False using collapse_no_triple_at by blast
  qed
qed

theorem newline_run_collapse_witness:
  "collapse_newlines (str ''a'' @ replicate 5 NL @ str ''b'') = str ''a'' @ [NL, NL] @ str ''b'' \<and>
   collapse_newlines (str ''a'' @ replicate 2 NL @ str ''b'') = str ''a'' @ [NL, NL] @ str ''b'' \<and>
   collapse_newlines (str ''ab'') = str ''ab''"
proof -
  have a: "(str ''a'' = [] \<or> last (str ''a'') \<noteq> NL) \<and> (str ''b'' = [] \<or> hd (str ''b'') \<noteq> NL)"
    by (simp add: ev)
  have b: "NL \<notin> set (str ''ab'')" by (simp add: ev)
  have c: "NL \<notin> set (str ''a'')" by (simp add: ev)
  have d: "NL \<notin> set (str ''b'')" by (simp add: ev)
  have e: "collapse_newlines (str ''a'') = str ''a''"
    using newline_run_collapse [of "str ''a''" "[]" 0] c by blast
  have f: "collapse_newlines (str ''b'') = str ''b''"
    using newline_run_collapse [of "str ''b''" "[]" 0] d by blast
  have "collapse_newlines (str ''a'' @ replicate 5 NL @ str ''b'') =
          collapse_newlines (str ''a'') @ replicate (if 3 \<le> (5::nat) then 2 else 5) NL @ collapse_newlines (str ''b'')"
    using newline_run_collapse [of "str ''a''" "str ''b''" 5] a by blast
  moreover have "collapse_newlines (str ''a'' @ replicate 2 NL @ str ''b'') =
          collapse_newlines (str ''a'') @ replicate (if 3 \<le> (2::nat) then 2 else 2) NL @ collapse_newlines (str ''b'')"
    using newline_run_collapse [of "str ''a''" "str ''b''" 2] a by blast
  moreover have "collapse_newlines (str ''ab'') = str ''ab''"
    using newline_run_collapse [of "str ''ab''" "[]" 0] b by blast
  ultimately show ?thesis using e f by (simp add: numeral_2_eq_2)
qed

section \<open>Running the pipeline twice\<close>

subsection \<open>Splitting into lines and joining again\<close>

lemma split_lines_nonempty: "split_lines s \<noteq> []"
  by (induction s) (auto split: list.splits)

lemma split_lines_Cons:
  "split_lines (c # cs) =
     (if c = NL then [] # split_lines cs else (c # hd (split_lines cs)) # tl (split_lines cs))"
  using split_lines_nonempty [of cs] by (cases "split_lines cs") auto

lemma hd_split_lines: "hd (split_lines s) = takeWhile (\<lambda>x. x \<noteq> NL) s"
  by (induction s) (auto simp: split_lines_Cons simp del: split_lines.simps(2))

lemma join_lines_Cons: "ls \<noteq> [] \<Longrightarrow> join_lines (l # ls) = l @ NL # join_lines ls"
  by (cases ls) auto

lemma join_lines_Cons_Cons: "join_lines ((c # l) # ls) = c # join_lines (l # ls)"
  by (cases ls) auto

lemma join_split: "join_lines (split_lines s) = s"
proof (induction s)
  case Nil
  show ?case by simp
next
  case (Cons c cs)
  obtain l ls where ls: "split_lines cs = l # ls"
    using split_lines_nonempty [of cs] by (cases "split_lines cs") auto
  show ?case
  proof (cases "c = NL")
    case True
    then show ?thesis using Cons ls by simp
  next
    case False
    then have "split_lines (c # cs) = (c # l) # ls" using ls by simp
    then show ?thesis using Cons ls by (simp only: join_lines_Cons_Cons)
  qed
qed

lemma split_lines_no_newline: "NL \<notin> set s \<Longrightarrow> split_lines s = [s]"
  by (induction s) auto

lemma split_lines_append:
  "NL \<notin> set l \<Longrightarrow> split_lines (l @ NL # r) = l # split_lines r"
  by (induction l) auto

lemma split_join:
  "ls \<noteq> [] \<Longrightarrow> (\<forall>l\<in>set ls. NL \<notin> set l) \<Longrightarrow> split_lines (join_lines ls) = ls"
proof (induction ls)
  case Nil
  then show ?case by simp
next
  case (Cons l ls)
  show ?case
  proof (cases "ls = []")
    case True
    then show ?thesis using Cons.prems by (simp add: split_lines_no_newline)
  next
    case False
    then have "split_lines (join_lines ls) = ls" using Cons by simp
    then show ?thesis using False Cons.prems by (simp add: join_lines_Cons split_lines_append)
  qed
qed

lemma lines_no_newline: "l \<in> set (split_lines s) \<Longrightarrow> NL \<notin> set l"
proof (induction s arbitrary: l)
  case Nil
  then show ?case by simp
next
  case (Cons c cs)
  obtain a as where as: "split_lines cs = a # as"
    using split_lines_nonempty [of cs] by (cases "split_lines cs") auto
  show ?case
  proof (cases "c = NL")
    case True
    then show ?thesis using Cons by auto
  next
    case False
    then have "l = c # a \<or> l \<in> set as" using Cons.prems as by auto
    then show ?thesis using Cons.IH as False by auto
  qed
qed

lemma split_lines_newlines:
  "split_lines (replicate n NL @ s) = replicate n [] @ split_lines s"
  by (induction n) auto

subsection \<open>A text without three newlines in a row is left alone\<close>

lemma collapse_fixed:
  "(\<forall>i. take 3 (drop i s) \<noteq> [NL, NL, NL]) \<Longrightarrow> collapse_newlines s = s"
proof (induction s rule: collapse_newlines.induct)
  case 1
  show ?case by simp
next
  case (2 c cs)
  have no: "\<not> 3 \<le> length (takeWhile (\<lambda>x. x = NL) (c # cs))"
  proof
    assume h: "3 \<le> length (takeWhile (\<lambda>x. x = NL) (c # cs))"
    have tk: "takeWhile (\<lambda>x. x = NL) (c # cs) = take (length (takeWhile (\<lambda>x. x = NL) (c # cs))) (c # cs)"
      by (rule takeWhile_eq_take)
    have "take 3 (takeWhile (\<lambda>x. x = NL) (c # cs)) = take 3 (c # cs)"
      by (subst tk) (simp add: h min_def del: takeWhile.simps)
    moreover have "\<forall>x\<in>set (take 3 (takeWhile (\<lambda>x. x = NL) (c # cs))). x = NL"
      by (metis in_set_takeD set_takeWhileD)
    moreover have "length (take 3 (takeWhile (\<lambda>x. x = NL) (c # cs))) = 3"
      using h by (simp del: takeWhile.simps)
    ultimately have "take 3 (c # cs) = replicate 3 NL"
      by (metis replicate_eqI)
    then have "take 3 (drop 0 (c # cs)) = [NL, NL, NL]"
      by (simp add: numeral_3_eq_3)
    then show False using "2.prems" by blast
  qed
  have "\<forall>i. take 3 (drop i cs) \<noteq> [NL, NL, NL]"
  proof
    fix i
    have "take 3 (drop (Suc i) (c # cs)) \<noteq> [NL, NL, NL]" using "2.prems" by blast
    then show "take 3 (drop i cs) \<noteq> [NL, NL, NL]" by simp
  qed
  then have "collapse_newlines cs = cs" using "2.IH"(2) [OF no] by simp
  then show ?case using no by (simp del: takeWhile.simps)
qed

subsection \<open>The line filter on its own output\<close>

lemma consume_append_id: "fst (consume ls) @ snd (consume ls) = ls"
  by (induction ls) auto

lemma consume_closed:
  "\<exists>l\<in>set ls. contains comment_close l \<Longrightarrow>
   consume (fst (consume ls) @ zs) = (fst (consume ls), zs)"
proof (induction ls)
  case Nil
  then show ?case by simp
next
  case (Cons a ls)
  show ?case
  proof (cases "contains comment_close a")
    case True
    then show ?thesis by simp
  next
    case False
    then have "\<exists>l\<in>set ls. contains comment_close l" using Cons.prems by auto
    then have "consume (fst (consume ls) @ zs) = (fst (consume ls), zs)" by (rule Cons.IH)
    then show ?thesis using False by simp
  qed
qed

lemma consume_open:
  "\<forall>l\<in>set ls. \<not> contains comment_close l \<Longrightarrow> consume ls = (ls, [])"
  by (induction ls) auto

lemma noise_loop_length: "length (noise_loop ls) \<le> length ls"
proof (induction ls rule: noise_loop.induct)
  case 1
  show ?case by simp
next
  case (2 line rest)
  have len: "length (fst (consume rest)) + length (snd (consume rest)) = length rest"
    by (metis consume_append_id length_append)
  show ?case
  proof (cases "startswith (strip line) comment_open")
    case True
    then have "length (noise_loop (snd (consume rest))) \<le> length (snd (consume rest))"
      using "2.IH"(1) by blast
    then show ?thesis using True len by (simp add: Let_def)
  next
    case False
    then have "length (noise_loop rest) \<le> length rest"
      using "2.IH"(2,3,4) by blast
    then show ?thesis using False by simp
  qed
qed

lemma noise_loop_subset: "set (noise_loop ls) \<subseteq> set ls"
proof (induction ls rule: noise_loop.induct)
  case 1
  show ?case by simp
next
  case (2 line rest)
  have sets: "set (fst (consume rest)) \<union> set (snd (consume rest)) = set rest"
    by (metis consume_append_id set_append)
  show ?case
  proof (cases "startswith (strip line) comment_open")
    case True
    then have "set (noise_loop (snd (consume rest))) \<subseteq> set (snd (consume rest))"
      using "2.IH"(1) by blast
    then show ?thesis using True sets by (auto simp: Let_def)
  next
    case False
    then have "set (noise_loop rest) \<subseteq> set rest"
      using "2.IH"(2,3,4) by blast
    then show ?thesis using False by auto
  qed
qed

lemma noise_loop_idem: "noise_loop (noise_loop ls) = noise_loop ls"
proof (induction ls rule: noise_loop.induct)
  case 1
  show ?case by simp
next
  case (2 line rest)
  let ?c = "fst (consume rest)" and ?r = "snd (consume rest)"
  show ?case
  proof (cases "startswith (strip line) comment_open")
    case opens: True
    show ?thesis
    proof (cases "length (line # ?c) < 4")
      case keep: True
      have ih: "noise_loop (noise_loop ?r) = noise_loop ?r"
        using "2.IH"(1) [OF opens refl] .
      have out: "noise_loop (line # rest) = line # ?c @ noise_loop ?r"
        using opens keep by (simp add: Let_def)
      have again: "consume (?c @ noise_loop ?r) = (?c, noise_loop ?r)"
      proof (cases "\<exists>l\<in>set rest. contains comment_close l")
        case True
        then show ?thesis by (rule consume_closed)
      next
        case False
        then have "consume rest = (rest, [])" using consume_open by blast
        then show ?thesis by simp
      qed
      have "noise_loop (line # ?c @ noise_loop ?r) = line # ?c @ noise_loop (noise_loop ?r)"
        using opens keep again by (simp add: Let_def)
      then show ?thesis using out ih by simp
    next
      case False
      then have "noise_loop (line # rest) = noise_loop ?r"
        using opens by (simp add: Let_def)
      then show ?thesis using "2.IH"(1) [OF opens refl] by simp
    qed
  next
    case False
    then have "noise_loop (noise_loop rest) = noise_loop rest"
      using "2.IH"(2,3,4) by blast
    then show ?thesis using False by simp
  qed
qed

lemma noise_loop_fixed_Cons:
  assumes "noise_loop (line # rest) = line # rest"
  shows "if startswith (strip line) comment_open
         then length (line # fst (consume rest)) < 4 \<and>
              noise_loop (snd (consume rest)) = snd (consume rest)
         else \<not> decorative line \<and> \<not> verbose_example line \<and> noise_loop rest = rest"
proof -
  let ?c = "fst (consume rest)" and ?r = "snd (consume rest)"
  have short: "noise_loop xs \<noteq> line # rest" if "length xs \<le> length rest" for xs
  proof
    assume "noise_loop xs = line # rest"
    then have "length (noise_loop xs) = Suc (length rest)" by simp
    then show False using noise_loop_length [of xs] that by simp
  qed
  have r_le: "length ?r \<le> length rest"
    by (metis consume_append_id length_append le_add2)
  show ?thesis
  proof (cases "startswith (strip line) comment_open")
    case opens: True
    have keep: "length (line # ?c) < 4"
    proof (rule ccontr)
      assume "\<not> length (line # ?c) < 4"
      then have "noise_loop (line # rest) = noise_loop ?r" using opens by (simp add: Let_def)
      then show False using assms short [OF r_le] by simp
    qed
    then have "noise_loop (line # rest) = line # ?c @ noise_loop ?r"
      using opens by (simp add: Let_def)
    then have "?c @ noise_loop ?r = ?c @ ?r"
      using assms consume_append_id [of rest] by simp
    then show ?thesis using opens keep by simp
  next
    case False
    then show ?thesis using assms short [of rest] by (auto split: if_splits)
  qed
qed

lemma strip_Nil: "strip [] = []"
  by (simp add: strip_def)

lemma not_open_Nil: "\<not> startswith (strip []) comment_open"
  by (simp add: ev)

lemma not_close_Nil: "\<not> contains comment_close []"
  by (simp add: ev)

lemma del_blank_refl: "del_blank ls ls"
  by (induction ls) (auto intro: del_blank.intros)

lemma del_blank_length: "del_blank ls ls' \<Longrightarrow> length ls' \<le> length ls"
  by (induction rule: del_blank.induct) auto

lemma del_blank_subset: "del_blank ls ls' \<Longrightarrow> set ls' \<subseteq> set ls"
  by (induction rule: del_blank.induct) auto

lemma del_blank_consume:
  "del_blank ls ls' \<Longrightarrow>
   del_blank (fst (consume ls)) (fst (consume ls')) \<and>
   del_blank (snd (consume ls)) (snd (consume ls'))"
proof (induction rule: del_blank.induct)
  case del_nil
  show ?case by (simp add: del_blank.del_nil)
next
  case (del_keep ls ls' l)
  then show ?case by (auto intro: del_blank.intros)
next
  case (del_drop ls ls')
  then show ?case using not_close_Nil by (auto intro: del_blank.intros)
qed

inductive_cases del_blank_ConsE: "del_blank (l # ls) ls'"

lemma noise_loop_fixed_del:
  "noise_loop ls = ls \<Longrightarrow> del_blank ls ls' \<Longrightarrow> noise_loop ls' = ls'"
proof (induction ls arbitrary: ls' rule: noise_loop.induct)
  case 1
  then show ?case by (auto elim: del_blank.cases)
next
  case (2 line rest)
  note fixed = noise_loop_fixed_Cons [OF "2.prems"(1)]
  show ?case
  proof (cases "startswith (strip line) comment_open")
    case opens: True
    then have nonempty: "line \<noteq> []" using not_open_Nil by auto
    from "2.prems"(2) nonempty obtain rest' where ls': "ls' = line # rest'" and d: "del_blank rest rest'"
      by (auto elim: del_blank_ConsE)
    have keep: "length (line # fst (consume rest)) < 4"
      and fr: "noise_loop (snd (consume rest)) = snd (consume rest)"
      using fixed opens by simp_all
    have dc: "del_blank (fst (consume rest)) (fst (consume rest'))"
      and dr: "del_blank (snd (consume rest)) (snd (consume rest'))"
      using del_blank_consume [OF d] by simp_all
    have "length (fst (consume rest')) \<le> length (fst (consume rest))"
      using dc by (rule del_blank_length)
    then have keep': "length (line # fst (consume rest')) < 4" using keep by simp
    have "noise_loop (snd (consume rest')) = snd (consume rest')"
      using "2.IH"(1) [OF opens refl fr dr] .
    then have "noise_loop (line # rest') = line # fst (consume rest') @ snd (consume rest')"
      using opens keep' by (simp add: Let_def)
    then show ?thesis unfolding ls' by (simp add: consume_append_id)
  next
    case normal: False
    then have nd: "\<not> decorative line" and ne: "\<not> verbose_example line"
      and fr: "noise_loop rest = rest"
      using fixed by simp_all
    have ih: "noise_loop xs = xs" if "del_blank rest xs" for xs
      using "2.IH"(4) [OF normal nd ne fr that] .
    from "2.prems"(2) show ?thesis
    proof (rule del_blank_ConsE)
      fix rest' assume "ls' = line # rest'" and "del_blank rest rest'"
      then show ?thesis using ih [of rest'] normal nd ne by simp
    next
      assume "line = []" and "del_blank rest ls'"
      then show ?thesis using ih [of ls'] by simp
    qed
  qed
qed

subsection \<open>The collapse only leaves out empty lines\<close>

lemma takeWhile_nl_replicate:
  "takeWhile (\<lambda>x. x = NL) s = replicate (length (takeWhile (\<lambda>x. x = NL) s)) NL"
  by (induction s) auto

lemma del_blank_drop_many: "del_blank ls ls' \<Longrightarrow> del_blank (replicate k [] @ ls) ls'"
  by (induction k) (auto intro: del_blank.intros)

lemma split_lines_hd_tl: "split_lines s = hd (split_lines s) # tl (split_lines s)"
  using split_lines_nonempty [of s] by simp

lemma split_collapse:
  "hd (split_lines (collapse_newlines s)) = hd (split_lines s) \<and>
   del_blank (tl (split_lines s)) (tl (split_lines (collapse_newlines s)))"
proof (induction s rule: collapse_newlines.induct)
  case 1
  show ?case by (simp add: del_blank.del_nil)
next
  case (2 c cs)
  show ?case
  proof (cases "3 \<le> length (takeWhile (\<lambda>x. x = NL) (c # cs))")
    case True
    let ?d = "dropWhile (\<lambda>x. x = NL) cs"
    let ?n = "length (takeWhile (\<lambda>x. x = NL) cs)"
    have c: "c = NL" using True by (auto split: if_splits)
    have n: "2 \<le> ?n" using True c by simp
    have "cs = takeWhile (\<lambda>x. x = NL) cs @ ?d" by simp
    then have cs: "cs = replicate ?n NL @ ?d"
      using takeWhile_nl_replicate [of cs] by simp
    have "split_lines cs = replicate ?n [] @ split_lines ?d"
      by (subst cs) (rule split_lines_newlines)
    then have whole: "split_lines (c # cs) = [] # replicate ?n [] @ split_lines ?d"
      using c by simp
    obtain k where k: "?n = Suc k" using n by (cases ?n) auto
    have out: "collapse_newlines (c # cs) = NL # NL # collapse_newlines ?d"
      using True by (simp del: takeWhile.simps)
    have ih: "hd (split_lines (collapse_newlines ?d)) = hd (split_lines ?d)"
      "del_blank (tl (split_lines ?d)) (tl (split_lines (collapse_newlines ?d)))"
      using "2.IH"(1) [OF True] by simp_all
    have "del_blank (hd (split_lines ?d) # tl (split_lines ?d))
            (hd (split_lines ?d) # tl (split_lines (collapse_newlines ?d)))"
      using ih(2) by (rule del_blank.del_keep)
    then have d: "del_blank (split_lines ?d) (split_lines (collapse_newlines ?d))"
      using split_lines_hd_tl [of ?d] split_lines_hd_tl [of "collapse_newlines ?d"] ih(1) by simp
    have "del_blank (replicate k [] @ split_lines ?d) (split_lines (collapse_newlines ?d))"
      using d by (rule del_blank_drop_many)
    then have "del_blank ([] # replicate k [] @ split_lines ?d) ([] # split_lines (collapse_newlines ?d))"
      by (rule del_blank.del_keep)
    then show ?thesis unfolding out whole k by simp
  next
    case False
    have out: "collapse_newlines (c # cs) = c # collapse_newlines cs"
      using False by (simp del: takeWhile.simps)
    have ih: "hd (split_lines (collapse_newlines cs)) = hd (split_lines cs)"
      "del_blank (tl (split_lines cs)) (tl (split_lines (collapse_newlines cs)))"
      using "2.IH"(2) [OF False] by simp_all
    show ?thesis
    proof (cases "c = NL")
      case True
      have "del_blank (hd (split_lines cs) # tl (split_lines cs))
              (hd (split_lines cs) # tl (split_lines (collapse_newlines cs)))"
        using ih(2) by (rule del_blank.del_keep)
      then have "del_blank (split_lines cs) (split_lines (collapse_newlines cs))"
        using split_lines_hd_tl [of cs] split_lines_hd_tl [of "collapse_newlines cs"] ih(1) by simp
      then show ?thesis unfolding out using True by simp
    next
      case False
      then show ?thesis unfolding out using ih
        by (simp add: split_lines_Cons del: split_lines.simps)
    qed
  qed
qed

lemma split_collapse_del:
  "del_blank (split_lines s) (split_lines (collapse_newlines s))"
proof -
  have "del_blank (hd (split_lines s) # tl (split_lines s))
          (hd (split_lines s) # tl (split_lines (collapse_newlines s)))"
    using split_collapse [of s] by (auto intro: del_blank.del_keep)
  then show ?thesis
    using split_lines_hd_tl [of s] split_lines_hd_tl [of "collapse_newlines s"] split_collapse [of s]
    by simp
qed

subsection \<open>The package rewrite on its own output\<close>

lemma startswith_decomp: "startswith s p \<longleftrightarrow> (\<exists>r. s = p @ r)"
proof
  assume "startswith s p"
  then have "s = p @ drop (length p) s"
    unfolding startswith_def by (metis append_take_drop_id)
  then show "\<exists>r. s = p @ r" by blast
next
  assume "\<exists>r. s = p @ r"
  then show "startswith s p" by (auto simp: startswith_def)
qed

lemma startswith_first_line:
  assumes "NL \<notin> set p"
  shows "startswith (takeWhile (\<lambda>x. x \<noteq> NL) s) p \<longleftrightarrow> startswith s p"
proof
  assume "startswith (takeWhile (\<lambda>x. x \<noteq> NL) s) p"
  then obtain r where "takeWhile (\<lambda>x. x \<noteq> NL) s = p @ r"
    using startswith_decomp by blast
  then have "s = p @ r @ dropWhile (\<lambda>x. x \<noteq> NL) s"
    by (metis append.assoc takeWhile_dropWhile_id)
  then show "startswith s p" using startswith_decomp by blast
next
  assume "startswith s p"
  then obtain r where s: "s = p @ r" using startswith_decomp by blast
  have "takeWhile (\<lambda>x. x \<noteq> NL) (p @ r) = p @ takeWhile (\<lambda>x. x \<noteq> NL) r"
    using assms by (intro takeWhile_append2) auto
  then show "startswith (takeWhile (\<lambda>x. x \<noteq> NL) s) p"
    unfolding s using startswith_decomp by blast
qed

lemma package_main_facts:
  "NL \<notin> set (str ''package main'')" "length (str ''package main'') = 12"
  "NL \<notin> set (str ''package intermediate'')"
  "\<not> startswith (str ''package intermediate'' @ r) (str ''package main'')"
  "\<not> startswith [] (str ''package main'')"
  by (simp_all add: ev)

lemma split_lines_prefix:
  "NL \<notin> set l \<Longrightarrow> split_lines (l @ z) = (l @ hd (split_lines z)) # tl (split_lines z)"
proof (induction l)
  case Nil
  then show ?case using split_lines_hd_tl [of z] by simp
next
  case (Cons a l)
  then show ?case by (simp add: split_lines_Cons del: split_lines.simps)
qed

lemma change_package_first_line:
  "takeWhile (\<lambda>x. x \<noteq> NL) (change_package False s) = takeWhile (\<lambda>x. x \<noteq> NL) s"
  by (induction s) auto

lemma change_package_lines:
  "(\<forall>l\<in>set (tl (split_lines (change_package b s))). \<not> startswith l (str ''package main'')) \<and>
   (b \<longrightarrow> \<not> startswith (hd (split_lines (change_package b s))) (str ''package main''))"
proof (induction b s rule: change_package.induct)
  case (1 bol)
  show ?case using package_main_facts(5) by simp
next
  case (2 bol c cs)
  show ?case
  proof (cases "bol \<and> startswith (c # cs) (str ''package main'')")
    case True
    let ?z = "change_package False (drop 11 cs)"
    have out: "change_package bol (c # cs) = str ''package intermediate'' @ ?z"
      using True by simp
    have sp: "split_lines (str ''package intermediate'' @ ?z) =
              (str ''package intermediate'' @ hd (split_lines ?z)) # tl (split_lines ?z)"
      using package_main_facts(3) by (rule split_lines_prefix)
    have "\<forall>l\<in>set (tl (split_lines ?z)). \<not> startswith l (str ''package main'')"
      using "2.IH"(1) [OF True] by blast
    then show ?thesis
      unfolding out sp using package_main_facts(4) by simp
  next
    case False
    have out: "change_package bol (c # cs) = c # change_package (c = NL) cs"
      using False by (simp only: change_package.simps if_False)
    note ih = "2.IH"(2) [OF False]
    show ?thesis
    proof (cases "c = NL")
      case True
      let ?z = "change_package True cs"
      have "\<forall>l\<in>set (tl (split_lines ?z)). \<not> startswith l (str ''package main'')"
        and "\<not> startswith (hd (split_lines ?z)) (str ''package main'')"
        using ih True by simp_all
      moreover have "set (split_lines ?z) = insert (hd (split_lines ?z)) (set (tl (split_lines ?z)))"
        using split_lines_hd_tl [of ?z] by (metis list.simps(15))
      ultimately have all: "\<forall>l\<in>set (split_lines ?z). \<not> startswith l (str ''package main'')"
        by simp
      have sp: "split_lines (c # ?z) = [] # split_lines ?z" using True by simp
      show ?thesis
        unfolding out using True all package_main_facts(5) sp by simp
    next
      case notnl: False
      let ?z = "change_package False cs"
      have tl_ok: "\<forall>l\<in>set (tl (split_lines ?z)). \<not> startswith l (str ''package main'')"
        using ih notnl by simp
      have sp: "split_lines (c # ?z) = (c # hd (split_lines ?z)) # tl (split_lines ?z)"
        using notnl by (simp only: split_lines_Cons if_False)
      have "hd (split_lines (c # ?z)) = takeWhile (\<lambda>x. x \<noteq> NL) (c # ?z)"
        by (rule hd_split_lines)
      also have "\<dots> = takeWhile (\<lambda>x. x \<noteq> NL) (c # cs)"
        using notnl by (simp add: change_package_first_line)
      finally have hd_eq: "hd (split_lines (c # ?z)) = takeWhile (\<lambda>x. x \<noteq> NL) (c # cs)" .
      have hd_ok: "\<not> startswith (hd (split_lines (c # ?z))) (str ''package main'')" if "bol"
      proof
        assume "startswith (hd (split_lines (c # ?z))) (str ''package main'')"
        then have "startswith (takeWhile (\<lambda>x. x \<noteq> NL) (c # cs)) (str ''package main'')"
          by (simp only: hd_eq)
        then have "startswith (c # cs) (str ''package main'')"
          using startswith_first_line [OF package_main_facts(1), of "c # cs"] by blast
        then show False using False that by blast
      qed
      have eq: "change_package (c = NL) cs = ?z" using notnl by simp
      have tl_eq: "tl (split_lines (c # ?z)) = tl (split_lines ?z)"
        by (subst sp) simp
      show ?thesis
        unfolding out eq tl_eq using tl_ok hd_ok by blast
    qed
  qed
qed

lemma change_package_id:
  "(\<forall>l\<in>set (tl (split_lines s)). \<not> startswith l (str ''package main'')) \<Longrightarrow>
   (b \<longrightarrow> \<not> startswith (hd (split_lines s)) (str ''package main'')) \<Longrightarrow>
   change_package b s = s"
proof (induction s arbitrary: b)
  case Nil
  show ?case by simp
next
  case (Cons c cs)
  have nomatch: "\<not> (b \<and> startswith (c # cs) (str ''package main''))"
  proof
    assume h: "b \<and> startswith (c # cs) (str ''package main'')"
    then have "startswith (takeWhile (\<lambda>x. x \<noteq> NL) (c # cs)) (str ''package main'')"
      using startswith_first_line [OF package_main_facts(1), of "c # cs"] by blast
    then have "startswith (hd (split_lines (c # cs))) (str ''package main'')"
      by (simp only: hd_split_lines)
    then show False using Cons.prems(2) h by blast
  qed
  have "change_package (c = NL) cs = cs"
  proof (cases "c = NL")
    case True
    then have sp: "split_lines (c # cs) = [] # split_lines cs" by simp
    have all: "\<forall>l\<in>set (split_lines cs). \<not> startswith l (str ''package main'')"
      using Cons.prems(1) unfolding sp by simp
    have "set (tl (split_lines cs)) \<subseteq> set (split_lines cs)"
      using split_lines_hd_tl [of cs] by (metis set_subset_Cons)
    moreover have "hd (split_lines cs) \<in> set (split_lines cs)"
      using split_lines_nonempty by simp
    ultimately show ?thesis using all by (intro Cons.IH) blast+
  next
    case False
    then have sp: "split_lines (c # cs) = (c # hd (split_lines cs)) # tl (split_lines cs)"
      by (simp only: split_lines_Cons if_False)
    have "\<forall>l\<in>set (tl (split_lines cs)). \<not> startswith l (str ''package main'')"
      using Cons.prems(1) unfolding sp by simp
    then show ?thesis using False by (intro Cons.IH) simp_all
  qed
  then show ?case using nomatch by (simp only: change_package.simps if_False)
qed

subsection \<open>Search and scan without positions\<close>

lemma before_search: "search p s = map_option length (before p s)"
  by (induction s) (auto simp: option.map_comp comp_def)

lemma before_Some: "before p s = Some pre \<Longrightarrow> \<exists>suf. s = pre @ p @ suf"
proof (induction s arbitrary: pre)
  case Nil
  then show ?case by (auto split: if_splits)
next
  case (Cons c cs)
  show ?case
  proof (cases "startswith (c # cs) p")
    case True
    then have "pre = []" using Cons.prems by simp
    then show ?thesis using True startswith_decomp [of "c # cs" p] by auto
  next
    case False
    then obtain t where t: "before p cs = Some t" and pre: "pre = c # t"
      using Cons.prems by auto
    then obtain suf where "cs = t @ p @ suf" using Cons.IH by blast
    then show ?thesis using pre by auto
  qed
qed

lemma scan_scan_prefix:
  "scan cs pos bc = map_option (\<lambda>t. pos + length t - 1) (scan_prefix cs bc)"
  by (induction cs arbitrary: pos bc) (auto simp: option.map_comp comp_def)

lemma scan_prefix_Some:
  "scan_prefix cs bc = Some t \<Longrightarrow> (\<exists>r. cs = t @ r) \<and> t \<noteq> [] \<and> last t = RBRACE"
proof (induction cs arbitrary: bc t)
  case Nil
  then show ?case by simp
next
  case (Cons c cs)
  show ?case
  proof (cases "c = RBRACE \<and> bc = 0")
    case True
    then have "t = [c]" using Cons.prems by (simp add: LBRACE_def RBRACE_def)
    then show ?thesis using True by simp
  next
    case False
    then obtain bc' u where u: "scan_prefix cs bc' = Some u" and t: "t = c # u"
      using Cons.prems by (auto split: if_splits)
    from Cons.IH [OF u] show ?thesis using t by auto
  qed
qed

lemma block_scanner_alt:
  "block_scanner s =
     (case before entry_header s of
        None \<Rightarrow> s
      | Some pre \<Rightarrow>
          (case scan_prefix (drop (length pre + length entry_header) s) 0 of
             None \<Rightarrow> s
           | Some t \<Rightarrow> pre @ entry_header @ t))"
proof (cases "before entry_header s")
  case None
  then show ?thesis by (simp add: block_scanner_def before_search)
next
  case (Some pre)
  let ?pos = "length pre + length entry_header"
  obtain suf where s: "s = pre @ entry_header @ suf" using before_Some [OF Some] by blast
  have suf: "drop ?pos s = suf" unfolding s by simp
  show ?thesis
  proof (cases "scan_prefix suf 0")
    case None
    then show ?thesis using Some suf
      by (simp add: block_scanner_def before_search scan_scan_prefix)
  next
    case found: (Some t)
    then obtain r where r: "suf = t @ r" and t: "t \<noteq> []"
      using scan_prefix_Some by blast
    have "?pos + length t - 1 + 1 = ?pos + length t" using t by (cases t) auto
    then have "take (?pos + length t - 1 + 1) s = pre @ entry_header @ t"
      unfolding s r by simp
    then show ?thesis using Some suf found
      by (simp add: block_scanner_def before_search scan_scan_prefix)
  qed
qed

subsection \<open>The collapse and the Block Scanner commute\<close>

lemma takeWhile_append_stop:
  "takeWhile P zs = [] \<Longrightarrow> takeWhile P (xs @ zs) = takeWhile P xs"
  by (induction xs) auto

lemma dropWhile_append_stop:
  "dropWhile P zs = zs \<Longrightarrow> dropWhile P (xs @ zs) = dropWhile P xs @ zs"
  by (induction xs) auto

lemma collapse_append_r:
  "zs = [] \<or> hd zs \<noteq> NL \<Longrightarrow>
   collapse_newlines (xs @ zs) = collapse_newlines xs @ collapse_newlines zs"
proof (induction xs rule: collapse_newlines.induct)
  case 1
  show ?case by simp
next
  case (2 c cs)
  have z: "takeWhile (\<lambda>x. x = NL) zs = []" "dropWhile (\<lambda>x. x = NL) zs = zs"
    using "2.prems" by (cases zs; auto)+
  have tw: "takeWhile (\<lambda>x. x = NL) ((c # cs) @ zs) = takeWhile (\<lambda>x. x = NL) (c # cs)"
    using z(1) by (rule takeWhile_append_stop)
  have dw: "dropWhile (\<lambda>x. x = NL) (cs @ zs) = dropWhile (\<lambda>x. x = NL) cs @ zs"
    using z(2) by (rule dropWhile_append_stop)
  show ?case
  proof (cases "3 \<le> length (takeWhile (\<lambda>x. x = NL) (c # cs))")
    case True
    have "collapse_newlines ((c # cs) @ zs) =
          NL # NL # collapse_newlines (dropWhile (\<lambda>x. x = NL) (cs @ zs))"
      using True tw by (simp del: takeWhile.simps)
    also have "\<dots> = NL # NL # collapse_newlines (dropWhile (\<lambda>x. x = NL) cs) @ collapse_newlines zs"
      using "2.IH"(1) [OF True "2.prems"] dw by simp
    also have "\<dots> = collapse_newlines (c # cs) @ collapse_newlines zs"
      using True by (simp del: takeWhile.simps)
    finally show ?thesis .
  next
    case False
    have "collapse_newlines ((c # cs) @ zs) = c # collapse_newlines (cs @ zs)"
      using False tw by (simp del: takeWhile.simps)
    moreover have "collapse_newlines (c # cs) = c # collapse_newlines cs"
      using False by (simp del: takeWhile.simps)
    ultimately show ?thesis using "2.IH"(2) [OF False "2.prems"] by simp
  qed
qed

lemma takeWhile_prefix_length:
  "length (takeWhile P xs) \<le> length (takeWhile P (xs @ ys))"
  by (induction xs) auto

lemma collapse_Cons_prefix:
  assumes "\<not> 3 \<le> length (takeWhile (\<lambda>x. x = NL) (c # t @ r))"
  shows "collapse_newlines (c # t) = c # collapse_newlines t"
proof -
  have "length (takeWhile (\<lambda>x. x = NL) (c # t)) \<le> length (takeWhile (\<lambda>x. x = NL) ((c # t) @ r))"
    by (rule takeWhile_prefix_length)
  then have "\<not> 3 \<le> length (takeWhile (\<lambda>x. x = NL) (c # t))"
    using assms by (simp del: takeWhile.simps)
  then show ?thesis by (simp del: takeWhile.simps)
qed

lemma first_line_collapse:
  "takeWhile (\<lambda>x. x \<noteq> NL) (collapse_newlines s) = takeWhile (\<lambda>x. x \<noteq> NL) s"
  using split_collapse [of s] by (simp add: hd_split_lines)

lemma startswith_collapse:
  assumes "NL \<notin> set p"
  shows "startswith (collapse_newlines s) p \<longleftrightarrow> startswith s p"
  using startswith_first_line [OF assms, of "collapse_newlines s"]
    startswith_first_line [OF assms, of s] first_line_collapse [of s] by simp

lemma run_decomp:
  assumes "3 \<le> length (takeWhile (\<lambda>x. x = NL) (c # cs))"
  shows "c # cs = replicate (length (takeWhile (\<lambda>x. x = NL) (c # cs))) NL @ dropWhile (\<lambda>x. x = NL) cs"
    and "dropWhile (\<lambda>x. x = NL) cs = [] \<or> hd (dropWhile (\<lambda>x. x = NL) cs) \<noteq> NL"
proof -
  have c: "c = NL" using assms by (auto split: if_splits)
  have "c # cs = takeWhile (\<lambda>x. x = NL) (c # cs) @ dropWhile (\<lambda>x. x = NL) (c # cs)"
    by (simp del: takeWhile.simps dropWhile.simps)
  moreover have "dropWhile (\<lambda>x. x = NL) (c # cs) = dropWhile (\<lambda>x. x = NL) cs"
    using c by simp
  ultimately show "c # cs = replicate (length (takeWhile (\<lambda>x. x = NL) (c # cs))) NL @ dropWhile (\<lambda>x. x = NL) cs"
    using takeWhile_nl_replicate [of "c # cs"] by (simp del: takeWhile.simps dropWhile.simps)
  show "dropWhile (\<lambda>x. x = NL) cs = [] \<or> hd (dropWhile (\<lambda>x. x = NL) cs) \<noteq> NL"
    using hd_dropWhile [of "\<lambda>x. x = NL" cs] by blast
qed

lemma before_newlines:
  assumes "p \<noteq> []" "NL \<notin> set p"
  shows "before p (replicate n NL @ d) = map_option (\<lambda>t. replicate n NL @ t) (before p d)"
proof (induction n)
  case 0
  show ?case by (simp add: option.map_ident)
next
  case (Suc n)
  obtain a q where p: "p = a # q" using assms(1) by (cases p) auto
  then have "a \<noteq> NL" using assms(2) by auto
  then have "\<not> startswith (NL # replicate n NL @ d) p"
    unfolding p by (auto simp: startswith_def)
  then show ?case using Suc by (simp add: option.map_comp comp_def)
qed

lemma scan_prefix_newlines:
  "scan_prefix (replicate n NL @ d) bc = map_option (\<lambda>t. replicate n NL @ t) (scan_prefix d bc)"
proof (induction n)
  case 0
  show ?case by (simp add: option.map_ident)
next
  case (Suc n)
  then show ?case by (simp add: option.map_comp comp_def NL_def LBRACE_def RBRACE_def)
qed

lemma before_collapse:
  assumes "p \<noteq> []" "NL \<notin> set p"
  shows "before p (collapse_newlines s) = map_option collapse_newlines (before p s)"
proof (induction s rule: collapse_newlines.induct)
  case 1
  show ?case using assms(1) by simp
next
  case (2 c cs)
  show ?case
  proof (cases "3 \<le> length (takeWhile (\<lambda>x. x = NL) (c # cs))")
    case True
    let ?n = "length (takeWhile (\<lambda>x. x = NL) (c # cs))"
    let ?d = "dropWhile (\<lambda>x. x = NL) cs"
    note dec = run_decomp [OF True]
    have out: "collapse_newlines (c # cs) = replicate 2 NL @ collapse_newlines ?d"
      using True by (simp add: numeral_2_eq_2 del: takeWhile.simps)
    have lhs: "before p (collapse_newlines (c # cs)) =
               map_option (\<lambda>t. replicate 2 NL @ collapse_newlines t) (before p ?d)"
      unfolding out before_newlines [OF assms] "2.IH"(1) [OF True]
      by (simp add: option.map_comp comp_def)
    have rhs: "before p (c # cs) = map_option (\<lambda>t. replicate ?n NL @ t) (before p ?d)"
      by (subst dec(1)) (rule before_newlines [OF assms])
    show ?thesis
    proof (cases "before p ?d")
      case None
      then show ?thesis using lhs rhs by simp
    next
      case (Some t)
      then obtain suf where d: "?d = t @ p @ suf" using before_Some by blast
      have "t = [] \<or> hd t \<noteq> NL"
        using dec(2) d by (cases t) auto
      then have "collapse_newlines (replicate ?n NL @ t) = replicate 2 NL @ collapse_newlines t"
        using collapse_run [of t ?n] True by simp
      then show ?thesis using lhs rhs Some by simp
    qed
  next
    case False
    have out: "collapse_newlines (c # cs) = c # collapse_newlines cs"
      using False by (simp del: takeWhile.simps)
    show ?thesis
    proof (cases "startswith (c # cs) p")
      case True
      then have "startswith (c # collapse_newlines cs) p"
        using startswith_collapse [OF assms(2), of "c # cs"] out by simp
      then show ?thesis using True out by simp
    next
      case nostart: False
      then have ns: "\<not> startswith (c # collapse_newlines cs) p"
        using startswith_collapse [OF assms(2), of "c # cs"] out by simp
      have lhs: "before p (collapse_newlines (c # cs)) =
                 map_option (\<lambda>t. c # collapse_newlines t) (before p cs)"
        unfolding out using ns "2.IH"(2) [OF False] by (simp add: option.map_comp comp_def)
      show ?thesis
      proof (cases "before p cs")
        case None
        then show ?thesis using lhs nostart by simp
      next
        case (Some t)
        then obtain suf where "cs = t @ p @ suf" using before_Some by blast
        then have "collapse_newlines (c # t) = c # collapse_newlines t"
          using False collapse_Cons_prefix [of c t "p @ suf"] by simp
        then show ?thesis using lhs nostart Some by simp
      qed
    qed
  qed
qed

lemma scan_prefix_collapse:
  "scan_prefix (collapse_newlines s) bc = map_option collapse_newlines (scan_prefix s bc)"
proof (induction s arbitrary: bc rule: collapse_newlines.induct)
  case 1
  show ?case by simp
next
  case (2 c cs)
  show ?case
  proof (cases "3 \<le> length (takeWhile (\<lambda>x. x = NL) (c # cs))")
    case True
    let ?n = "length (takeWhile (\<lambda>x. x = NL) (c # cs))"
    let ?d = "dropWhile (\<lambda>x. x = NL) cs"
    note dec = run_decomp [OF True]
    have out: "collapse_newlines (c # cs) = replicate 2 NL @ collapse_newlines ?d"
      using True by (simp add: numeral_2_eq_2 del: takeWhile.simps)
    have lhs: "scan_prefix (collapse_newlines (c # cs)) bc =
               map_option (\<lambda>t. replicate 2 NL @ collapse_newlines t) (scan_prefix ?d bc)"
      unfolding out scan_prefix_newlines "2.IH"(1) [OF True]
      by (simp add: option.map_comp comp_def)
    have rhs: "scan_prefix (c # cs) bc = map_option (\<lambda>t. replicate ?n NL @ t) (scan_prefix ?d bc)"
      by (subst dec(1)) (rule scan_prefix_newlines)
    show ?thesis
    proof (cases "scan_prefix ?d bc")
      case None
      then show ?thesis using lhs rhs by simp
    next
      case (Some t)
      then obtain r where d: "?d = t @ r" and t: "t \<noteq> []" using scan_prefix_Some by blast
      have "hd t \<noteq> NL"
        using dec(2) d t by (cases t) auto
      then have "collapse_newlines (replicate ?n NL @ t) = replicate 2 NL @ collapse_newlines t"
        using collapse_run [of t ?n] True by simp
      then show ?thesis using lhs rhs Some by simp
    qed
  next
    case False
    have out: "collapse_newlines (c # cs) = c # collapse_newlines cs"
      using False by (simp del: takeWhile.simps)
    note ih = "2.IH"(2) [OF False]
    have pre: "collapse_newlines (c # t) = c # collapse_newlines t"
      if found: "scan_prefix cs b = Some t" for b t
    proof -
      obtain r where "cs = t @ r" using scan_prefix_Some [OF found] by blast
      then show ?thesis using False collapse_Cons_prefix [of c t r] by simp
    qed
    have one: "collapse_newlines [c] = [c]" by simp
    have step: "map_option (Cons c) (scan_prefix (collapse_newlines cs) b) =
                map_option collapse_newlines (map_option (Cons c) (scan_prefix cs b))" for b
      unfolding ih using pre [of b] by (cases "scan_prefix cs b") auto
    show ?thesis
    proof (cases "c = LBRACE")
      case True
      then show ?thesis unfolding out using step [of "bc + 1"] by simp
    next
      case nl: False
      show ?thesis
      proof (cases "c = RBRACE")
        case True
        then show ?thesis unfolding out using nl step [of "bc - 1"] one
          by (simp del: collapse_newlines.simps)
      next
        case False
        then show ?thesis unfolding out using nl step [of bc] by simp
      qed
    qed
  qed
qed

lemma header_facts:
  "entry_header \<noteq> []" "NL \<notin> set entry_header" "hd entry_header \<noteq> NL" "last entry_header \<noteq> NL"
  by (simp_all add: ev)

lemma collapse_around_header:
  "collapse_newlines (pre @ entry_header @ suf) =
   collapse_newlines pre @ entry_header @ collapse_newlines suf"
proof -
  have "collapse_newlines (pre @ entry_header @ suf) =
        collapse_newlines pre @ collapse_newlines (entry_header @ suf)"
    using header_facts by (intro collapse_append_r) simp
  also have "collapse_newlines (entry_header @ suf) = collapse_newlines entry_header @ collapse_newlines suf"
    using header_facts by (intro collapse_append) simp_all
  also have "collapse_newlines entry_header = entry_header"
    using header_facts(2) by (rule collapse_no_newline)
  finally show ?thesis by simp
qed

lemma block_scanner_collapse:
  "block_scanner (collapse_newlines s) = collapse_newlines (block_scanner s)"
proof (cases "before entry_header s")
  case None
  then have "before entry_header (collapse_newlines s) = None"
    using before_collapse [OF header_facts(1,2)] by simp
  then show ?thesis using None by (simp add: block_scanner_alt)
next
  case (Some pre)
  let ?h = entry_header
  obtain suf where s: "s = pre @ ?h @ suf" using before_Some [OF Some] by blast
  have cs: "collapse_newlines s = collapse_newlines pre @ ?h @ collapse_newlines suf"
    unfolding s by (rule collapse_around_header)
  have b': "before ?h (collapse_newlines s) = Some (collapse_newlines pre)"
    using before_collapse [OF header_facts(1,2), of s] Some by simp
  have d: "drop (length pre + length ?h) s = suf" unfolding s by simp
  have d': "drop (length (collapse_newlines pre) + length ?h) (collapse_newlines s) = collapse_newlines suf"
    unfolding cs by simp
  have sp: "scan_prefix (collapse_newlines suf) 0 = map_option collapse_newlines (scan_prefix suf 0)"
    by (rule scan_prefix_collapse)
  show ?thesis
  proof (cases "scan_prefix suf 0")
    case None
    then show ?thesis using Some b' d d' sp by (simp add: block_scanner_alt)
  next
    case found: (Some t)
    have "block_scanner s = pre @ ?h @ t"
      using Some d found by (simp add: block_scanner_alt)
    moreover have "block_scanner (collapse_newlines s) = collapse_newlines pre @ ?h @ collapse_newlines t"
      using b' d' sp found by (simp add: block_scanner_alt)
    ultimately show ?thesis using collapse_around_header [of pre t] by simp
  qed
qed

subsection \<open>The whole pipeline\<close>

lemma collapse_idem: "collapse_newlines (collapse_newlines s) = collapse_newlines s"
  using collapse_no_triple_at [of _ s] by (intro collapse_fixed) blast

lemma noise_loop_blank: "noise_loop [[]] = [[]]"
  by (simp add: ev)

lemma filtered_lines:
  fixes content :: pystr
  defines "K \<equiv> noise_loop (split_lines (change_package True content))"
  shows "noise_loop (split_lines (join_lines K)) = split_lines (join_lines K)"
    and "\<forall>l\<in>set (split_lines (join_lines K)). \<not> startswith l (str ''package main'')"
proof -
  let ?ls = "split_lines (change_package True content)"
  have ok: "\<forall>l\<in>set ?ls. \<not> startswith l (str ''package main'')"
  proof
    fix l assume "l \<in> set ?ls"
    then have "l = hd ?ls \<or> l \<in> set (tl ?ls)"
      using split_lines_hd_tl [of "change_package True content"] by (metis set_ConsD)
    then show "\<not> startswith l (str ''package main'')"
      using change_package_lines [of True content] by blast
  qed
  have sub: "set K \<subseteq> set ?ls" unfolding K_def by (rule noise_loop_subset)
  have sj: "split_lines (join_lines K) = (if K = [] then [[]] else K)"
  proof (cases "K = []")
    case True
    then show ?thesis by simp
  next
    case False
    have "\<forall>l\<in>set K. NL \<notin> set l" using sub lines_no_newline by blast
    then show ?thesis using False by (simp add: split_join)
  qed
  show "noise_loop (split_lines (join_lines K)) = split_lines (join_lines K)"
    unfolding sj using noise_loop_blank noise_loop_idem [of ?ls] by (simp add: K_def)
  show "\<forall>l\<in>set (split_lines (join_lines K)). \<not> startswith l (str ''package main'')"
    unfolding sj using ok sub package_main_facts(5) by auto
qed

lemma first_line_take:
  "\<exists>r. takeWhile (\<lambda>x. x \<noteq> NL) s = takeWhile (\<lambda>x. x \<noteq> NL) (take n s) @ r"
proof (induction s arbitrary: n)
  case Nil
  show ?case by simp
next
  case (Cons c cs)
  show ?case
  proof (cases n)
    case 0
    then show ?thesis by simp
  next
    case (Suc m)
    obtain r where "takeWhile (\<lambda>x. x \<noteq> NL) cs = takeWhile (\<lambda>x. x \<noteq> NL) (take m cs) @ r"
      using Cons.IH [of m] by blast
    then show ?thesis using Suc by simp
  qed
qed

lemma split_take:
  "(\<exists>r. hd (split_lines s) = hd (split_lines (take n s)) @ r) \<and>
   (\<forall>l\<in>set (tl (split_lines (take n s))). \<exists>l'\<in>set (tl (split_lines s)). \<exists>r. l' = l @ r)"
proof (induction s arbitrary: n)
  case Nil
  show ?case by simp
next
  case (Cons c cs)
  have hd_part: "\<exists>r. hd (split_lines (c # cs)) = hd (split_lines (take n (c # cs))) @ r"
    unfolding hd_split_lines by (rule first_line_take)
  show ?case
  proof (cases n)
    case 0
    then show ?thesis by simp
  next
    case (Suc m)
    note ih = Cons.IH [of m]
    show ?thesis
    proof (cases "c = NL")
      case True
      have t: "tl (split_lines (take n (c # cs))) = split_lines (take m cs)"
        and w: "tl (split_lines (c # cs)) = split_lines cs"
        using True Suc by simp_all
      have "\<exists>l'\<in>set (split_lines cs). \<exists>r. l' = l @ r" if l: "l \<in> set (split_lines (take m cs))" for l
      proof -
        have "l = hd (split_lines (take m cs)) \<or> l \<in> set (tl (split_lines (take m cs)))"
          using l split_lines_hd_tl [of "take m cs"] by (metis set_ConsD)
        then show ?thesis
        proof
          assume "l = hd (split_lines (take m cs))"
          moreover have "hd (split_lines cs) \<in> set (split_lines cs)"
            using split_lines_nonempty by simp
          ultimately show ?thesis using ih by blast
        next
          assume "l \<in> set (tl (split_lines (take m cs)))"
          then obtain l' r where "l' \<in> set (tl (split_lines cs))" "l' = l @ r" using ih by blast
          moreover have "set (tl (split_lines cs)) \<subseteq> set (split_lines cs)"
            using split_lines_hd_tl [of cs] by (metis set_subset_Cons)
          ultimately show ?thesis by blast
        qed
      qed
      then show ?thesis using hd_part unfolding t w by blast
    next
      case False
      have t: "tl (split_lines (take n (c # cs))) = tl (split_lines (take m cs))"
        and w: "tl (split_lines (c # cs)) = tl (split_lines cs)"
        using False Suc by (simp_all add: split_lines_Cons del: split_lines.simps)
      show ?thesis using hd_part ih unfolding t w by blast
    qed
  qed
qed

lemma take_lines_no_package_main:
  assumes "\<forall>l\<in>set (split_lines s). \<not> startswith l (str ''package main'')"
  shows "\<forall>l\<in>set (split_lines (take n s)). \<not> startswith l (str ''package main'')"
proof
  fix l assume l: "l \<in> set (split_lines (take n s))"
  have "l = hd (split_lines (take n s)) \<or> l \<in> set (tl (split_lines (take n s)))"
    using l split_lines_hd_tl [of "take n s"] by (metis set_ConsD)
  moreover have "hd (split_lines s) \<in> set (split_lines s)"
    using split_lines_nonempty by simp
  moreover have "set (tl (split_lines s)) \<subseteq> set (split_lines s)"
    using split_lines_hd_tl [of s] by (metis set_subset_Cons)
  ultimately obtain l' r where l': "l' \<in> set (split_lines s)" and eq: "l' = l @ r"
    using split_take [of s n] by blast
  show "\<not> startswith l (str ''package main'')"
  proof
    assume "startswith l (str ''package main'')"
    then obtain q where "l = str ''package main'' @ q" using startswith_decomp by blast
    then have "l' = str ''package main'' @ q @ r" using eq by simp
    then have "startswith l' (str ''package main'')" using startswith_decomp by blast
    then show False using assms l' by blast
  qed
qed

lemma block_scanner_take: "\<exists>n. block_scanner s = take n s"
proof (cases "block_scanner s = s")
  case True
  then have "block_scanner s = take (length s) s" by simp
  then show ?thesis by blast
next
  case False
  then show ?thesis
    by (auto simp: block_scanner_def Let_def split: option.splits)
qed

lemma before_indep:
  "before p (pre @ p @ suf) = Some pre \<Longrightarrow> before p (pre @ p @ suf') = Some pre"
proof (induction pre)
  case Nil
  have "startswith (p @ suf') p" using startswith_decomp by blast
  then show ?case by (cases "p @ suf'") auto
next
  case (Cons c pre)
  have same: "take (length p) (c # pre @ p @ suf') = take (length p) (c # pre @ p @ suf)"
  proof -
    have short: "take (length p) (xs @ z) = take (length p) xs"
      if "length p \<le> length xs" for xs z :: pystr
      using that by simp
    have "length p \<le> length (c # pre @ p)" by simp
    from short [OF this, of suf'] short [OF this, of suf] show ?thesis by simp
  qed
  have ns: "\<not> startswith (c # pre @ p @ suf) p"
    using Cons.prems by (auto split: if_splits)
  then have ns': "\<not> startswith (c # pre @ p @ suf') p"
    using same by (simp add: startswith_def)
  have "before p (pre @ p @ suf) = Some pre"
    using Cons.prems ns by auto
  then have "before p (pre @ p @ suf') = Some pre" by (rule Cons.IH)
  then show ?case using ns' by simp
qed

lemma scan_prefix_self:
  "scan_prefix cs bc = Some t \<Longrightarrow> scan_prefix t bc = Some t"
proof (induction cs arbitrary: bc t)
  case Nil
  then show ?case by simp
next
  case (Cons c cs)
  show ?case
  proof (cases "c = RBRACE \<and> bc = 0")
    case True
    then have "t = [c]" using Cons.prems by (simp add: LBRACE_def RBRACE_def)
    then show ?thesis using True by (simp add: LBRACE_def RBRACE_def)
  next
    case False
    then obtain bc' u where u: "scan_prefix cs bc' = Some u" and t: "t = c # u"
      and bc': "bc' = (if c = LBRACE then bc + 1 else if c = RBRACE then bc - 1 else bc)"
      using Cons.prems by (auto split: if_splits)
    have "scan_prefix u bc' = Some u" using u by (rule Cons.IH)
    then show ?thesis using False t bc' by auto
  qed
qed

lemma block_scanner_idem: "block_scanner (block_scanner s) = block_scanner s"
proof (cases "before entry_header s")
  case None
  then show ?thesis by (simp add: block_scanner_alt)
next
  case (Some pre)
  obtain suf where s: "s = pre @ entry_header @ suf" using before_Some [OF Some] by blast
  have d: "drop (length pre + length entry_header) s = suf" unfolding s by simp
  show ?thesis
  proof (cases "scan_prefix suf 0")
    case None
    then have "block_scanner s = s" using Some d by (simp add: block_scanner_alt)
    then show ?thesis by simp
  next
    case found: (Some t)
    have out: "block_scanner s = pre @ entry_header @ t"
      using Some d found by (simp add: block_scanner_alt)
    have "before entry_header (pre @ entry_header @ t) = Some pre"
      using Some unfolding s by (rule before_indep)
    moreover have "scan_prefix t 0 = Some t" using found by (rule scan_prefix_self)
    ultimately have "block_scanner (pre @ entry_header @ t) = pre @ entry_header @ t"
      by (simp add: block_scanner_alt)
    then show ?thesis using out by simp
  qed
qed

lemma untruncated_fixed:
  assumes "block_scanner (join_lines (noise_loop (split_lines (change_package True content)))) =
           join_lines (noise_loop (split_lines (change_package True content)))"
  shows "noise_loop (split_lines (block_scanner (join_lines (noise_loop (split_lines (change_package True content)))))) =
         split_lines (block_scanner (join_lines (noise_loop (split_lines (change_package True content)))))"
  unfolding assms by (rule filtered_lines(1))

text \<open>
  Claim C8, as the code has it.  The Block Scanner can cut a line in two: the line
  \<^verbatim>\<open>Example } func \<close> is kept by the \<^verbatim>\<open>Example\<close> rule because it holds \<^verbatim>\<open>func \<close>, the cut
  leaves \<^verbatim>\<open>Example }\<close>, and a second run removes that line.  And the cleanup of
  box-drawing characters can join two runs of newlines that a second run then collapses.
\<close>

theorem aggressive_simplify_twice_counterexample:
  "aggressive_simplify (str ''func main() {'' @ NL # str ''Example } func '') =
     str ''func main() {'' @ NL # str ''Example }'' \<and>
   aggressive_simplify (str ''func main() {'' @ NL # str ''Example }'') = str ''func main() {'' \<and>
   aggressive_simplify (str ''a'' @ [NL, NL, 9552, 9552, NL, NL] @ str ''b'') =
     str ''a'' @ [NL, NL, NL, NL] @ str ''b'' \<and>
   aggressive_simplify (str ''a'' @ [NL, NL, NL, NL] @ str ''b'') = str ''a'' @ [NL, NL] @ str ''b''"
  by (simp add: ev)

text \<open>
  Claim C8, amended.  Let \<open>T\<close> be what the Block Scanner returns in the first run, cut or
  not.  When the line filter leaves the lines of \<open>T\<close> as they are (so the cut has not
  turned its last line into one the filter removes) and the cleanup of box-drawing
  characters removes nothing from the collapsed \<open>T\<close>, running \<^verbatim>\<open>aggressive_simplify\<close> a
  second time changes nothing.  The first condition always holds when the scanner does not
  shorten the filtered text (\<open>untruncated_fixed\<close>).
\<close>

theorem aggressive_simplify_idempotent_if_fixed:
  assumes filter:
      "noise_loop (split_lines (block_scanner (join_lines (noise_loop (split_lines (change_package True content)))))) =
       split_lines (block_scanner (join_lines (noise_loop (split_lines (change_package True content)))))"
    and cleanup:
      "clean_decorative (collapse_newlines (block_scanner (join_lines (noise_loop (split_lines (change_package True content)))))) =
       collapse_newlines (block_scanner (join_lines (noise_loop (split_lines (change_package True content)))))"
  shows "aggressive_simplify (aggressive_simplify content) = aggressive_simplify content"
proof -
  let ?X = "join_lines (noise_loop (split_lines (change_package True content)))"
  let ?T = "block_scanner ?X"
  let ?Y = "collapse_newlines ?T"
  have once: "aggressive_simplify content = ?Y"
    using cleanup by (simp add: aggressive_simplify_def)
  obtain n where T: "?T = take n ?X" using block_scanner_take by blast
  have "\<forall>l\<in>set (split_lines (take n ?X)). \<not> startswith l (str ''package main'')"
    using filtered_lines(2) [of content] by (rule take_lines_no_package_main)
  then have T_ok: "\<forall>l\<in>set (split_lines ?T). \<not> startswith l (str ''package main'')"
    using T by simp
  have del: "del_blank (split_lines ?T) (split_lines ?Y)"
    by (rule split_collapse_del)
  have lines_ok: "\<forall>l\<in>set (split_lines ?Y). \<not> startswith l (str ''package main'')"
    using T_ok del_blank_subset [OF del] by blast
  have "set (tl (split_lines ?Y)) \<subseteq> set (split_lines ?Y)"
    using split_lines_hd_tl [of ?Y] by (metis set_subset_Cons)
  moreover have "hd (split_lines ?Y) \<in> set (split_lines ?Y)"
    using split_lines_nonempty by simp
  ultimately have step1: "change_package True ?Y = ?Y"
    using lines_ok by (intro change_package_id) blast+
  have step2: "noise_loop (split_lines ?Y) = split_lines ?Y"
    using filter del by (rule noise_loop_fixed_del)
  have step3: "block_scanner ?Y = ?Y"
    by (simp add: block_scanner_collapse block_scanner_idem)
  have "aggressive_simplify ?Y = clean_decorative (collapse_newlines ?Y)"
    unfolding aggressive_simplify_def Let_def step1 step2 join_split step3 ..
  also have "\<dots> = ?Y" using cleanup by (simp add: collapse_idem)
  finally show ?thesis using once by simp
qed

theorem aggressive_simplify_idempotent_if_fixed_witness:
  "aggressive_simplify (aggressive_simplify
     (str ''package main'' @ [NL, NL, NL, NL] @ str ''/*'' @ NL # str '' a'' @ NL # str '' b'' @ NL # str '' */''
        @ NL # str ''// Example 1'' @ NL # str ''func main() {'' @ NL # str ''}'' @ NL # NL
        # str ''func helper() {'' @ NL # str ''}'' @ [NL])) =
   str ''package intermediate'' @ [NL, NL] @ str ''func main() {'' @ NL # str ''}''"
proof -
  let ?c = "str ''package main'' @ [NL, NL, NL, NL] @ str ''/*'' @ NL # str '' a'' @ NL # str '' b'' @ NL # str '' */''
        @ NL # str ''// Example 1'' @ NL # str ''func main() {'' @ NL # str ''}'' @ NL # NL
        # str ''func helper() {'' @ NL # str ''}'' @ [NL]"
  have T: "block_scanner (join_lines (noise_loop (split_lines (change_package True ?c)))) =
           str ''package intermediate'' @ [NL, NL, NL, NL] @ str ''func main() {'' @ NL # str ''}''"
    by (simp add: ev)
  have h1: "noise_loop (split_lines (block_scanner (join_lines (noise_loop (split_lines (change_package True ?c)))))) =
            split_lines (block_scanner (join_lines (noise_loop (split_lines (change_package True ?c)))))"
    unfolding T by (simp add: ev)
  have h2: "clean_decorative (collapse_newlines (block_scanner (join_lines (noise_loop (split_lines (change_package True ?c)))))) =
            collapse_newlines (block_scanner (join_lines (noise_loop (split_lines (change_package True ?c)))))"
    unfolding T by (simp add: ev)
  have once: "aggressive_simplify ?c =
              str ''package intermediate'' @ [NL, NL] @ str ''func main() {'' @ NL # str ''}''"
    by (simp add: ev)
  show ?thesis
    using aggressive_simplify_idempotent_if_fixed [OF h1 h2] once by simp
qed

end
